theory Spec2Isabelle
  imports Main
begin

section \<open>Strings and character classes\<close>

text \<open>
  Python strings are sequences of code points.  A \<^typ>\<open>string\<close> here is a list of 8-bit
  characters, read as the code points U+0000 to U+00FF; the three classifications below
  are the ones Python applies to that range.  \<open>str.isalpha\<close> holds of the characters of the
  general categories Lu, Ll, Lt, Lm and Lo, \<open>str.isdecimal\<close> and the pattern \<open>\d\<close> of the
  category Nd, which below U+0100 is the digits \<open>0\<close> to \<open>9\<close>.  The pattern classes
  \<open>[A-Z]\<close> and \<open>[a-z]\<close> are the ASCII letters.
\<close>

definition codepoint :: "char \<Rightarrow> nat" where
  "codepoint c = of_char c"

definition is_upper :: "char \<Rightarrow> bool" where
  "is_upper c = (65 \<le> codepoint c \<and> codepoint c \<le> 90)"

definition is_lower :: "char \<Rightarrow> bool" where
  "is_lower c = (97 \<le> codepoint c \<and> codepoint c \<le> 122)"

definition is_decimal :: "char \<Rightarrow> bool" where
  "is_decimal c = (48 \<le> codepoint c \<and> codepoint c \<le> 57)"

definition is_alpha :: "char \<Rightarrow> bool" where
  "is_alpha c = (is_upper c \<or> is_lower c \<or> codepoint c = 170 \<or> codepoint c = 181 \<or> codepoint c = 186
     \<or> (192 \<le> codepoint c \<and> codepoint c \<le> 214) \<or> (216 \<le> codepoint c \<and> codepoint c \<le> 246)
     \<or> 248 \<le> codepoint c)"

definition opening_brackets :: "string list" where
  "opening_brackets = [''('', ''{'', ''['']"

definition closing_brackets :: "string list" where
  "closing_brackets = ['')'', ''}'', '']'']"

definition is_bracket :: "char \<Rightarrow> bool" where
  "is_bracket c = ([c] \<in> set opening_brackets \<or> [c] \<in> set closing_brackets)"

text \<open>\<open>str.isalpha\<close> and \<open>str.isdecimal\<close>: false of the empty string.\<close>

definition isalpha :: "string \<Rightarrow> bool" where
  "isalpha s = (s \<noteq> [] \<and> list_all is_alpha s)"

definition isdecimal :: "string \<Rightarrow> bool" where
  "isdecimal s = (s \<noteq> [] \<and> list_all is_decimal s)"

section \<open>Tokens and the tokenizer\<close>

datatype TokenType = ATOM | FACTOR | OPENING_BRACKET | CLOSING_BRACKET | EOF

record Token =
  "value" :: string
  token_type :: TokenType

text \<open>
  The exceptions of the module, and \<open>ValueError\<close> of the built-in \<open>int\<close>.  A
  \<open>ParsingException\<close> carries the token and the position it was raised with.
\<close>

datatype error =
    TokenizerException string
  | ParsingException Token nat
  | ValueError string

definition tokenize :: "string \<Rightarrow> error + Token" where
  "tokenize token =
     (if token = [] then Inr \<lparr>value = token, token_type = EOF\<rparr>
      else if isalpha token then Inr \<lparr>value = token, token_type = ATOM\<rparr>
      else if isdecimal token then Inr \<lparr>value = token, token_type = FACTOR\<rparr>
      else if token \<in> set opening_brackets then Inr \<lparr>value = token, token_type = OPENING_BRACKET\<rparr>
      else if token \<in> set closing_brackets then Inr \<lparr>value = token, token_type = CLOSING_BRACKET\<rparr>
      else Inl (TokenizerException token))"

section \<open>The lexer\<close>

text \<open>
  \<open>re.findall\<close> with the pattern \<open>[A-Z][a-z]?|\d+|[\[({})\]]\<close>: the scan goes from left to
  right; at each place the first alternative that matches is taken, greedily, and the scan
  goes on behind the match; where no alternative matches, one character is skipped.
\<close>

function findall :: "string \<Rightarrow> string list" where
  "findall [] = []"
| "findall (c # cs) =
     (if is_upper c then
        (case cs of
           [] \<Rightarrow> [[c]]
         | d # ds \<Rightarrow> if is_lower d then [c, d] # findall ds else [c] # findall cs)
      else if is_decimal c then (c # takeWhile is_decimal cs) # findall (dropWhile is_decimal cs)
      else if is_bracket c then [c] # findall cs
      else findall cs)"
  by pat_completeness auto
termination
  by (relation "measure length") (auto simp: length_dropWhile_le less_Suc_eq_le)

record Lexer =
  tokens :: "string list"
  position :: nat

definition Lexer_init :: "string \<Rightarrow> Lexer" where
  "Lexer_init formula = \<lparr>tokens = findall formula, position = 0\<rparr>"

text \<open>
  \<open>peek\<close> reads the lexer and assigns nothing, so it is a function of the lexer alone.  The
  index is never negative; an index past the end raises \<open>IndexError\<close>, which is caught.
\<close>

definition peek :: "Lexer \<Rightarrow> error + Token" where
  "peek l =
     (if position l < length (tokens l) then tokenize (tokens l ! position l)
      else tokenize [])"

text \<open>When \<open>peek\<close> raises, the exception leaves \<open>get_next_token\<close> before the increment.\<close>

definition get_next_token :: "Lexer \<Rightarrow> (error + Token) \<times> Lexer" where
  "get_next_token l =
     (case peek l of
        Inl e \<Rightarrow> (Inl e, l)
      | Inr token \<Rightarrow> (Inr token, l\<lparr>position := position l + 1\<rparr>))"

section \<open>Counters\<close>

text \<open>
  \<open>collections.Counter\<close> is a dictionary from keys to integers; a dictionary keeps its keys
  in insertion order.  It is modelled by the list of its items in that order.  Reading a
  missing key gives 0 and stores nothing; storing at a key that is present keeps its place,
  storing at a new key appends it.  \<open>+=\<close> adds the counts of the other counter one item
  after the other and then deletes every item whose count is not positive.
\<close>

type_synonym Counter = "(string \<times> int) list"

definition getitem :: "Counter \<Rightarrow> string \<Rightarrow> int" where
  "getitem c k = (case map_of c k of None \<Rightarrow> 0 | Some v \<Rightarrow> v)"

fun setitem :: "Counter \<Rightarrow> string \<Rightarrow> int \<Rightarrow> Counter" where
  "setitem [] k v = [(k, v)]"
| "setitem ((k', v') # c) k v = (if k' = k then (k', v) # c else (k', v') # setitem c k v)"

definition keep_positive :: "Counter \<Rightarrow> Counter" where
  "keep_positive c = filter (\<lambda>(elem, count). 0 < count) c"

definition iadd :: "Counter \<Rightarrow> Counter \<Rightarrow> Counter" where
  "iadd self other =
     keep_positive (fold (\<lambda>(elem, count) s. setitem s elem (getitem s elem + count)) other self)"

definition multiply :: "Counter \<Rightarrow> int \<Rightarrow> Counter" where
  "multiply counter factor =
     fold (\<lambda>key c. setitem c key (getitem c key * factor)) (map fst counter) counter"

text \<open>
  The built-in \<open>int\<close> on the value of a token.  On a decimal string it is the number
  written, unless the string has more digits than the interpreter converts: then \<open>int\<close>
  raises \<open>ValueError\<close>.  The limit is \<open>sys.int_max_str_digits\<close>, 4300 as the interpreter
  starts.  The other strings \<open>int\<close> accepts (signs, blanks, underscores) are not decimal
  strings, and a token of type \<open>FACTOR\<close> is one, so every other string is taken to raise.
\<close>

definition int_max_str_digits :: nat where
  "int_max_str_digits = 4300"

definition int_of_str :: "string \<Rightarrow> error + int" where
  "int_of_str s =
     (if isdecimal s \<and> length s \<le> int_max_str_digits
      then Inr (fold (\<lambda>c n. 10 * n + (int (codepoint c) - 48)) s 0)
      else Inl (ValueError s))"

section \<open>The parser\<close>

text \<open>
  Every method of the parser works on the lexer it owns: it takes the lexer and returns the
  outcome, an exception or a value, with the lexer as the method leaves it.  The calls nest
  as deep as the formula asks for; the recursion limit of the interpreter is not part of
  the model.
\<close>

definition consume_opening_bracket :: "Lexer \<Rightarrow> (error + unit) \<times> Lexer" where
  "consume_opening_bracket l =
     (case get_next_token l of
        (Inl e, l') \<Rightarrow> (Inl e, l')
      | (Inr token, l') \<Rightarrow> (Inr (), l'))"

definition consume_closing_bracket :: "Lexer \<Rightarrow> (error + unit) \<times> Lexer" where
  "consume_closing_bracket l =
     (case get_next_token l of
        (Inl e, l') \<Rightarrow> (Inl e, l')
      | (Inr token, l') \<Rightarrow>
          if token_type token \<noteq> CLOSING_BRACKET
          then (Inl (ParsingException token (position l')), l')
          else (Inr (), l'))"

definition parse_atom :: "Lexer \<Rightarrow> (error + Counter) \<times> Lexer" where
  "parse_atom l =
     (case get_next_token l of
        (Inl e, l') \<Rightarrow> (Inl e, l')
      | (Inr token, l') \<Rightarrow> (Inr [(value token, 1)], l'))"

definition parse_factor :: "Lexer \<Rightarrow> (error + int) \<times> Lexer" where
  "parse_factor l =
     (case get_next_token l of
        (Inl e, l') \<Rightarrow> (Inl e, l')
      | (Inr token, l') \<Rightarrow>
          (case int_of_str (value token) of
             Inl e \<Rightarrow> (Inl e, l')
           | Inr n \<Rightarrow> (Inr n, l')))"

function parse_molecule :: "Lexer \<Rightarrow> (error + Counter) \<times> Lexer"
  and parse_group :: "Lexer \<Rightarrow> (error + Counter) \<times> Lexer" where
  "parse_molecule l =
     (case peek l of
        Inl e \<Rightarrow> (Inl e, l)
      | Inr token \<Rightarrow>
          if token_type token \<in> {OPENING_BRACKET, ATOM} then
            (case parse_group l of
               (Inl e, l1) \<Rightarrow> (Inl e, l1)
             | (Inr inner_counter, l1) \<Rightarrow>
                 let outer_counter = iadd [] inner_counter in
                 (case peek l1 of
                    Inl e \<Rightarrow> (Inl e, l1)
                  | Inr token \<Rightarrow>
                      if token_type token \<in> {OPENING_BRACKET, ATOM} then
                        (case parse_molecule l1 of
                           (Inl e, l2) \<Rightarrow> (Inl e, l2)
                         | (Inr inner_counter, l2) \<Rightarrow> (Inr (iadd outer_counter inner_counter), l2))
                      else (Inr outer_counter, l1)))
          else (Inl (ParsingException token (position l)), l))"
| "parse_group l =
     (case peek l of
        Inl e \<Rightarrow> (Inl e, l)
      | Inr token \<Rightarrow>
          (case
             (if token_type token = OPENING_BRACKET then
                (case consume_opening_bracket l of
                   (Inl e, l1) \<Rightarrow> (Inl e, l1)
                 | (Inr u, l1) \<Rightarrow>
                     (case parse_molecule l1 of
                        (Inl e, l2) \<Rightarrow> (Inl e, l2)
                      | (Inr counter, l2) \<Rightarrow>
                          (case consume_closing_bracket l2 of
                             (Inl e, l3) \<Rightarrow> (Inl e, l3)
                           | (Inr u, l3) \<Rightarrow> (Inr counter, l3))))
              else if token_type token = ATOM then parse_atom l
              else (Inl (ParsingException token (position l)), l))
           of
             (Inl e, l1) \<Rightarrow> (Inl e, l1)
           | (Inr counter, l1) \<Rightarrow>
               (case peek l1 of
                  Inl e \<Rightarrow> (Inl e, l1)
                | Inr token \<Rightarrow>
                    if token_type token = FACTOR then
                      (case parse_factor l1 of
                         (Inl e, l2) \<Rightarrow> (Inl e, l2)
                       | (Inr factor, l2) \<Rightarrow>
                           (Inr (if factor \<noteq> 1 then multiply counter factor else counter), l2))
                    else (Inr counter, l1))))"
  by pat_completeness auto



record Parser =
  lexer :: Lexer
  result :: "Counter option"

definition Parser_init :: "Lexer \<Rightarrow> Parser" where
  "Parser_init l = \<lparr>lexer = l, result = None\<rparr>"

text \<open>
  \<open>parse_formula\<close> stores the mapping before it looks at the token behind the molecule.  An
  exception raised inside \<open>parse_molecule\<close> leaves the stored result \<open>None\<close>.
\<close>

definition parse_formula :: "Parser \<Rightarrow> (error + Counter) \<times> Parser" where
  "parse_formula p =
     (case result p of
        None \<Rightarrow>
          (case parse_molecule (lexer p) of
             (Inl e, l1) \<Rightarrow> (Inl e, p\<lparr>lexer := l1\<rparr>)
           | (Inr counter, l1) \<Rightarrow>
               let p1 = p\<lparr>lexer := l1, result := Some counter\<rparr> in
               (case peek l1 of
                  Inl e \<Rightarrow> (Inl e, p1)
                | Inr token \<Rightarrow>
                    if token_type token \<noteq> EOF
                    then (Inl (ParsingException token (position l1)), p1)
                    else (Inr counter, p1)))
      | Some r \<Rightarrow> (Inr r, p))"

text \<open>The whole use of the module: a lexer on the formula, a parser on the lexer, one call.\<close>

definition parse :: "string \<Rightarrow> error + Counter" where
  "parse formula = fst (parse_formula (Parser_init (Lexer_init formula)))"

text \<open>A later state of the same lexer: the same tokens, the cursor further on.\<close>

definition advanced :: "Lexer \<Rightarrow> Lexer \<Rightarrow> bool" where
  "advanced l l' = (tokens l' = tokens l \<and> position l < position l')"

text \<open>
  The strings the pattern \<open>[A-Z][a-z]?\<close> matches as a whole, and the strings in front of
  which a match of the pattern cannot go on: a match goes on only over a lower-case letter
  or a digit.
\<close>

definition is_atom_symbol :: "string \<Rightarrow> bool" where
  "is_atom_symbol s =
     (case s of
        [c] \<Rightarrow> is_upper c
      | [c, d] \<Rightarrow> is_upper c \<and> is_lower d
      | _ \<Rightarrow> False)"

definition boundary :: "string \<Rightarrow> bool" where
  "boundary s = (case s of [] \<Rightarrow> True | c # cs \<Rightarrow> \<not> is_lower c \<and> \<not> is_decimal c)"

text \<open>
  The last lines of \<open>_parse_group\<close>, which both of its branches run into, by themselves: the
  optional factor behind a group.  The cursor one token further on.
\<close>

definition group_factor :: "Counter \<Rightarrow> Lexer \<Rightarrow> (error + Counter) \<times> Lexer" where
  "group_factor counter l1 =
     (case peek l1 of
        Inl e \<Rightarrow> (Inl e, l1)
      | Inr token \<Rightarrow>
          if token_type token = FACTOR then
            (case parse_factor l1 of
               (Inl e, l2) \<Rightarrow> (Inl e, l2)
             | (Inr factor, l2) \<Rightarrow>
                 (Inr (if factor \<noteq> 1 then multiply counter factor else counter), l2))
          else (Inr counter, l1))"

definition step :: "Lexer \<Rightarrow> Lexer" where
  "step l = l\<lparr>position := Suc (position l)\<rparr>"

definition starts_group :: "Token \<Rightarrow> bool" where
  "starts_group t = (token_type t \<in> {OPENING_BRACKET, ATOM})"


text \<open>The alphabetic substrings of a lexer: the values its \<open>ATOM\<close> tokens can have.\<close>

definition atoms :: "Lexer \<Rightarrow> string set" where
  "atoms l = set (filter isalpha (tokens l))"

text \<open>
  A lexer with further tokens in front of its own and behind them, the cursor at the same
  token; and the tokens in front of which a molecule ends as it does at the end of input:
  none, or a closing bracket first.
\<close>

definition embed :: "string list \<Rightarrow> string list \<Rightarrow> Lexer \<Rightarrow> Lexer" where
  "embed pre suf l = \<lparr>tokens = pre @ tokens l @ suf, position = length pre + position l\<rparr>"

definition closes :: "string list \<Rightarrow> bool" where
  "closes suf = (case suf of [] \<Rightarrow> True | s # _ \<Rightarrow> s \<in> set closing_brackets)"

section \<open>Termination of the descent\<close>

lemma get_next_token_Inr:
  "get_next_token l = (Inr t, l') \<Longrightarrow> peek l = Inr t \<and> l' = l\<lparr>position := Suc (position l)\<rparr>"
  by (auto simp: get_next_token_def split: sum.splits)

lemma peek_in_range:
  "peek l = Inr t \<Longrightarrow> token_type t \<noteq> EOF \<Longrightarrow> position l < length (tokens l)"
  by (auto simp: peek_def tokenize_def split: if_splits)

lemma consume_opening_bracket_Inr:
  "consume_opening_bracket l = (Inr u, l') \<Longrightarrow> l' = l\<lparr>position := Suc (position l)\<rparr>"
  by (auto simp: consume_opening_bracket_def split: prod.splits sum.splits dest: get_next_token_Inr)

lemma consume_closing_bracket_Inr:
  "consume_closing_bracket l = (Inr u, l') \<Longrightarrow>
     l' = l\<lparr>position := Suc (position l)\<rparr> \<and> (\<exists>t. peek l = Inr t \<and> token_type t = CLOSING_BRACKET)"
  by (auto simp: consume_closing_bracket_def split: prod.splits sum.splits if_splits
      dest: get_next_token_Inr)

lemma parse_atom_Inr:
  "parse_atom l = (Inr c, l') \<Longrightarrow>
     l' = l\<lparr>position := Suc (position l)\<rparr> \<and> (\<exists>t. peek l = Inr t \<and> c = [(value t, 1)])"
  by (auto simp: parse_atom_def split: prod.splits sum.splits dest: get_next_token_Inr)

lemma parse_factor_Inr:
  "parse_factor l = (Inr n, l') \<Longrightarrow>
     l' = l\<lparr>position := Suc (position l)\<rparr> \<and> (\<exists>t. peek l = Inr t \<and> int_of_str (value t) = Inr n)"
  by (auto simp: parse_factor_def split: prod.splits sum.splits dest: get_next_token_Inr)

lemma advanced_Suc: "advanced l (l\<lparr>position := Suc (position l)\<rparr>)"
  by (simp add: advanced_def)

lemma advanced_trans: "advanced l l1 \<Longrightarrow> advanced l1 l2 \<Longrightarrow> advanced l l2"
  by (auto simp: advanced_def)

lemma parse_partial_advance:
  "parse_molecule_parse_group_dom (Inl l) \<Longrightarrow>
     (\<forall>c l'. parse_molecule l = (Inr c, l') \<longrightarrow> advanced l l')"
  "parse_molecule_parse_group_dom (Inr m) \<Longrightarrow>
     (\<forall>c l'. parse_group m = (Inr c, l') \<longrightarrow> advanced m l')"
proof (induction rule: parse_molecule_parse_group.pinduct)
  case (1 l)
  show ?case
  proof (intro allI impI)
    fix c l' assume res: "parse_molecule l = (Inr c, l')"
    note eq = parse_molecule.psimps [OF "1.hyps"]
    from res obtain t where pk: "peek l = Inr t" and tt: "token_type t \<in> {OPENING_BRACKET, ATOM}"
      by (subst (asm) eq) (simp split: sum.splits if_splits)
    obtain r1 l1 where g: "parse_group l = (r1, l1)" by force
    with res pk tt obtain ic where r1: "r1 = Inr ic"
      by (subst (asm) eq) (cases r1; simp)
    from "1.IH"(1) [OF pk tt] g r1 have a1: "advanced l l1" by simp
    from res pk tt g r1 obtain t2 where pk2: "peek l1 = Inr t2"
      by (subst (asm) eq) (simp add: Let_def split: sum.splits)
    show "advanced l l'"
    proof (cases "token_type t2 \<in> {OPENING_BRACKET, ATOM}")
      case False
      with res pk tt g r1 pk2 have "l' = l1"
        by (subst (asm) eq) (simp add: Let_def)
      with a1 show ?thesis by simp
    next
      case True
      obtain r2 l2 where m: "parse_molecule l1 = (r2, l2)" by force
      with res pk tt g r1 pk2 True have l2: "l' = l2" and "\<exists>c2. r2 = Inr c2"
        by (subst (asm) eq; cases r2; simp add: Let_def)+
      then obtain c2 where r2: "r2 = Inr c2" by blast
      from "1.IH"(2) [OF pk tt g [symmetric] r1 refl pk2 True] m r2 have "advanced l1 l2" by simp
      with a1 l2 show ?thesis by (blast intro: advanced_trans)
    qed
  qed
next
  case (2 l)
  show ?case
  proof (intro allI impI)
    fix c l' assume res: "parse_group l = (Inr c, l')"
    note eq = parse_group.psimps [OF "2.hyps"]
    from res obtain t where pk: "peek l = Inr t"
      by (subst (asm) eq) (simp split: sum.splits)
    define body where "body =
      (if token_type t = OPENING_BRACKET then
                (case consume_opening_bracket l of
                   (Inl e, l1) \<Rightarrow> (Inl e, l1)
                 | (Inr u, l1) \<Rightarrow>
                     (case parse_molecule l1 of
                        (Inl e, l2) \<Rightarrow> (Inl e, l2)
                      | (Inr counter, l2) \<Rightarrow>
                          (case consume_closing_bracket l2 of
                             (Inl e, l3) \<Rightarrow> (Inl e, l3)
                           | (Inr u, l3) \<Rightarrow> (Inr counter, l3))))
              else if token_type t = ATOM then parse_atom l
              else (Inl (ParsingException t (position l)), l))"
    obtain rb lb where b: "body = (rb, lb)" by force
    from res pk b obtain cb where rb: "rb = Inr cb"
      by (subst (asm) eq) (cases rb; simp add: body_def)
    have ab: "advanced l lb"
    proof (cases "token_type t = OPENING_BRACKET")
      case True
      obtain r1 l1 where o: "consume_opening_bracket l = (r1, l1)" by force
      with b rb True obtain u where r1: "r1 = Inr u" by (cases r1; simp add: body_def)
      from o r1 have a1: "advanced l l1"
        by (auto dest!: consume_opening_bracket_Inr simp: advanced_Suc)
      obtain r2 l2 where m: "parse_molecule l1 = (r2, l2)" by force
      with b rb True o r1 obtain c2 where r2: "r2 = Inr c2" by (cases r2; simp add: body_def)
      from "2.IH" [OF pk True o [symmetric] r1] m r2 have a2: "advanced l1 l2" by simp
      obtain r3 l3 where cl: "consume_closing_bracket l2 = (r3, l3)" by force
      with b rb True o r1 m r2 obtain u3 where r3: "r3 = Inr u3" and lb: "lb = l3"
        by (cases r3; simp add: body_def)
      from cl r3 have a3: "advanced l2 l3"
        by (auto dest!: consume_closing_bracket_Inr simp: advanced_Suc)
      from a1 a2 a3 lb show ?thesis by (blast intro: advanced_trans)
    next
      case False
      with b rb have "parse_atom l = (Inr cb, lb)"
        by (simp add: body_def split: if_splits)
      then show ?thesis by (auto dest!: parse_atom_Inr simp: advanced_Suc)
    qed
    from res pk b rb obtain t2 where pk2: "peek lb = Inr t2"
      by (subst (asm) eq) (simp add: body_def [symmetric] split: sum.splits)
    show "advanced l l'"
    proof (cases "token_type t2 = FACTOR")
      case False
      with res pk b rb pk2 have "l' = lb"
        by (subst (asm) eq) (simp add: body_def [symmetric])
      with ab show ?thesis by simp
    next
      case True
      obtain r4 l4 where f: "parse_factor lb = (r4, l4)" by force
      with res pk b rb pk2 True have l4: "l' = l4" and "\<exists>n. r4 = Inr n"
        by (subst (asm) eq; cases r4; simp add: body_def [symmetric])+
      with f have "advanced lb l4" by (auto dest!: parse_factor_Inr simp: advanced_Suc)
      with ab l4 show ?thesis by (blast intro: advanced_trans)
    qed
  qed
qed

termination parse_molecule
proof (relation "measure (\<lambda>x. case x of
         Inl l \<Rightarrow> 2 * (length (tokens l) - position l) + 1
       | Inr l \<Rightarrow> 2 * (length (tokens l) - position l))", goal_cases)
  case 1
  show ?case by simp
next
  case (2 l b)
  show ?case by simp
next
  case (3 l b x y ba xa bb)
  from 3(3,4) have "parse_group l = (Inr ba, y)" by simp
  with parse_partial_advance(2) [OF 3(8)] have "advanced l y" by blast
  moreover from peek_in_range [OF 3(6)] 3(7) have "position y < length (tokens y)" by auto
  ultimately have "length (tokens y) - position y < length (tokens l) - position l"
    unfolding advanced_def by (metis diff_less_mono2 less_trans)
  then show ?case by simp
next
  case (4 l b x y ba)
  from peek_in_range [OF 4(1)] 4(2) have "position l < length (tokens l)" by simp
  moreover from 4(3,4) have "y = l\<lparr>position := Suc (position l)\<rparr>"
    by (metis consume_opening_bracket_Inr)
  ultimately show ?case by simp
qed

text \<open>The defining equations unfold for ever; they are used one step at a time.\<close>

declare parse_molecule.simps [simp del] parse_group.simps [simp del]

section \<open>Properties of the tokenizer\<close>

lemma codepoint_brackets [simp]:
  "codepoint CHR ''('' = 40" "codepoint CHR '')'' = 41"
  "codepoint CHR ''['' = 91" "codepoint CHR '']'' = 93"
  "codepoint CHR ''{'' = 123" "codepoint CHR ''}'' = 125"
  by (simp_all add: codepoint_def)

lemma is_decimal_not_alpha: "is_decimal c \<Longrightarrow> \<not> is_alpha c"
  by (auto simp: is_decimal_def is_alpha_def is_upper_def is_lower_def)

lemma isdecimal_not_isalpha: "isdecimal s \<Longrightarrow> \<not> isalpha s"
  by (cases s) (auto simp: isdecimal_def isalpha_def is_decimal_not_alpha)

lemma bracket_not_isalpha:
  "s \<in> set opening_brackets \<or> s \<in> set closing_brackets \<Longrightarrow> \<not> isalpha s"
  by (auto simp: opening_brackets_def closing_brackets_def isalpha_def is_alpha_def
      is_upper_def is_lower_def)

lemma bracket_not_isdecimal:
  "s \<in> set opening_brackets \<or> s \<in> set closing_brackets \<Longrightarrow> \<not> isdecimal s"
  by (auto simp: opening_brackets_def closing_brackets_def isdecimal_def is_decimal_def)

lemma closing_not_opening: "s \<in> set closing_brackets \<Longrightarrow> s \<notin> set opening_brackets"
  by (auto simp: opening_brackets_def closing_brackets_def)

lemma bracket_nonempty:
  "s \<in> set opening_brackets \<or> s \<in> set closing_brackets \<Longrightarrow> s \<noteq> []"
  by (auto simp: opening_brackets_def closing_brackets_def)

lemma tokenize_isalpha:
  "isalpha s \<Longrightarrow> tokenize s = Inr \<lparr>value = s, token_type = ATOM\<rparr>"
  by (auto simp: tokenize_def isalpha_def)

lemma tokenize_isdecimal:
  assumes "isdecimal s"
  shows "tokenize s = Inr \<lparr>value = s, token_type = FACTOR\<rparr>"
proof -
  from assms have "s \<noteq> []" by (simp add: isdecimal_def)
  with assms isdecimal_not_isalpha [OF assms] show ?thesis
    by (simp add: tokenize_def)
qed

lemma tokenize_opening:
  "s \<in> set opening_brackets \<Longrightarrow> tokenize s = Inr \<lparr>value = s, token_type = OPENING_BRACKET\<rparr>"
  using bracket_nonempty [of s] bracket_not_isalpha [of s] bracket_not_isdecimal [of s]
  by (simp add: tokenize_def)

lemma tokenize_closing:
  "s \<in> set closing_brackets \<Longrightarrow> tokenize s = Inr \<lparr>value = s, token_type = CLOSING_BRACKET\<rparr>"
  using bracket_nonempty [of s] bracket_not_isalpha [of s] bracket_not_isdecimal [of s]
    closing_not_opening [of s]
  by (simp add: tokenize_def)

text \<open>
  Claim C3.  For every string \<open>s\<close>: the empty string is tokenized to an \<open>EOF\<close> token, an
  alphabetic string to an \<open>ATOM\<close>, a decimal string to a \<open>FACTOR\<close>, one of \<open>(\<close>, \<open>{\<close>, \<open>[\<close> to
  an \<open>OPENING_BRACKET\<close>, one of \<open>)\<close>, \<open>}\<close>, \<open>]\<close> to a \<open>CLOSING_BRACKET\<close>, each time with the
  value \<open>s\<close>; on every other string \<open>tokenize\<close> raises \<open>TokenizerException\<close> with \<open>s\<close>.
\<close>

theorem tokenize_classification:
  "(s = [] \<longrightarrow> tokenize s = Inr \<lparr>value = s, token_type = EOF\<rparr>) \<and>
   (isalpha s \<longrightarrow> tokenize s = Inr \<lparr>value = s, token_type = ATOM\<rparr>) \<and>
   (isdecimal s \<longrightarrow> tokenize s = Inr \<lparr>value = s, token_type = FACTOR\<rparr>) \<and>
   (s \<in> set opening_brackets \<longrightarrow> tokenize s = Inr \<lparr>value = s, token_type = OPENING_BRACKET\<rparr>) \<and>
   (s \<in> set closing_brackets \<longrightarrow> tokenize s = Inr \<lparr>value = s, token_type = CLOSING_BRACKET\<rparr>) \<and>
   (s \<noteq> [] \<and> \<not> isalpha s \<and> \<not> isdecimal s \<and> s \<notin> set opening_brackets \<and> s \<notin> set closing_brackets
      \<longrightarrow> tokenize s = Inl (TokenizerException s))"
proof (intro conjI impI)
  assume "s = []"
  then show "tokenize s = Inr \<lparr>value = s, token_type = EOF\<rparr>"
    by (simp add: tokenize_def)
next
  assume "s \<noteq> [] \<and> \<not> isalpha s \<and> \<not> isdecimal s \<and> s \<notin> set opening_brackets \<and> s \<notin> set closing_brackets"
  then show "tokenize s = Inl (TokenizerException s)"
    by (simp add: tokenize_def)
qed (fact tokenize_isalpha tokenize_isdecimal tokenize_opening tokenize_closing)+

theorem tokenize_classification_witness:
  "tokenize '''' = Inr \<lparr>value = '''', token_type = EOF\<rparr> \<and>
   tokenize ''He'' = Inr \<lparr>value = ''He'', token_type = ATOM\<rparr> \<and>
   tokenize ''999'' = Inr \<lparr>value = ''999'', token_type = FACTOR\<rparr> \<and>
   tokenize ''{'' = Inr \<lparr>value = ''{'', token_type = OPENING_BRACKET\<rparr> \<and>
   tokenize '']'' = Inr \<lparr>value = '']'', token_type = CLOSING_BRACKET\<rparr> \<and>
   tokenize ''+'' = Inl (TokenizerException ''+'')"
proof (intro conjI)
  note T = tokenize_classification
  show "tokenize '''' = Inr \<lparr>value = '''', token_type = EOF\<rparr>"
    by (rule T [THEN conjunct1, rule_format]) simp
  show "tokenize ''He'' = Inr \<lparr>value = ''He'', token_type = ATOM\<rparr>"
    by (rule T [THEN conjunct2, THEN conjunct1, rule_format]) code_simp
  show "tokenize ''999'' = Inr \<lparr>value = ''999'', token_type = FACTOR\<rparr>"
    by (rule T [THEN conjunct2, THEN conjunct2, THEN conjunct1, rule_format]) code_simp
  show "tokenize ''{'' = Inr \<lparr>value = ''{'', token_type = OPENING_BRACKET\<rparr>"
    by (rule T [THEN conjunct2, THEN conjunct2, THEN conjunct2, THEN conjunct1, rule_format]) code_simp
  show "tokenize '']'' = Inr \<lparr>value = '']'', token_type = CLOSING_BRACKET\<rparr>"
    by (rule T [THEN conjunct2, THEN conjunct2, THEN conjunct2, THEN conjunct2, THEN conjunct1, rule_format])
      code_simp
  show "tokenize ''+'' = Inl (TokenizerException ''+'')"
    by (rule T [THEN conjunct2, THEN conjunct2, THEN conjunct2, THEN conjunct2, THEN conjunct2, rule_format])
      code_simp
qed

section \<open>Properties of the lexer\<close>

lemma bracket_classes:
  "is_bracket c \<Longrightarrow> \<not> is_upper c \<and> \<not> is_lower c \<and> \<not> is_decimal c"
  by (auto simp: is_bracket_def opening_brackets_def closing_brackets_def is_upper_def
      is_lower_def is_decimal_def)

lemma upper_not_decimal: "is_upper c \<Longrightarrow> \<not> is_decimal c"
  by (auto simp: is_upper_def is_decimal_def)

lemma is_atom_symbol_isalpha: "is_atom_symbol s \<Longrightarrow> isalpha s"
  by (auto simp: is_atom_symbol_def isalpha_def is_alpha_def split: list.splits)

lemma findall_shapes:
  "t \<in> set (findall s) \<Longrightarrow>
     is_atom_symbol t \<or> isdecimal t \<or> t \<in> set opening_brackets \<or> t \<in> set closing_brackets"
proof (induction s rule: findall.induct)
  case 1
  then show ?case by simp
next
  case (2 c cs)
  show ?case
  proof (cases "is_upper c")
    case True
    with 2 show ?thesis
      by (cases cs) (auto simp: is_atom_symbol_def split: if_splits)
  next
    case up: False
    show ?thesis
    proof (cases "is_decimal c")
      case True
      have "isdecimal (c # takeWhile is_decimal cs)"
        using True by (auto simp: isdecimal_def list_all_iff dest: set_takeWhileD)
      with 2 up True show ?thesis by auto
    next
      case False
      with 2 up show ?thesis
        by (auto simp: is_bracket_def split: if_splits)
    qed
  qed
qed

lemma tokenize_findall:
  assumes "t \<in> set (findall s)"
  shows "\<exists>k. k \<noteq> EOF \<and> tokenize t = Inr \<lparr>value = t, token_type = k\<rparr>"
proof -
  from findall_shapes [OF assms] consider "isalpha t" | "isdecimal t"
    | "t \<in> set opening_brackets" | "t \<in> set closing_brackets"
    using is_atom_symbol_isalpha by blast
  then show ?thesis
    by cases (simp_all add: tokenize_isalpha tokenize_isdecimal tokenize_opening tokenize_closing)
qed

lemma take_drop_decimal_boundary:
  "boundary s2 \<Longrightarrow>
     takeWhile is_decimal (cs @ s2) = takeWhile is_decimal cs \<and>
     dropWhile is_decimal (cs @ s2) = dropWhile is_decimal cs @ s2"
  by (induction cs) (auto simp: boundary_def split: list.splits)

lemma findall_append:
  "boundary s2 \<Longrightarrow> findall (s1 @ s2) = findall s1 @ findall s2"
proof (induction s1 rule: findall.induct)
  case 1
  then show ?case by simp
next
  case (2 c cs)
  show ?case
  proof (cases "is_upper c")
    case True
    show ?thesis
    proof (cases cs)
      case Nil
      with True "2.prems" show ?thesis
        by (cases s2) (auto simp: boundary_def)
    next
      case (Cons d ds)
      with True "2.IH"(1,2) [OF True Cons] "2.prems" show ?thesis by simp
    qed
  next
    case up: False
    show ?thesis
    proof (cases "is_decimal c")
      case True
      with up "2.IH"(3) [OF up True "2.prems"] take_drop_decimal_boundary [OF "2.prems", of cs]
      show ?thesis by simp
    next
      case False
      with up "2.IH"(4,5) "2.prems" show ?thesis
        by (cases "is_bracket c") simp_all
    qed
  qed
qed

lemma take_drop_all:
  "list_all P xs \<Longrightarrow> takeWhile P xs = xs \<and> dropWhile P xs = []"
  by (induction xs) auto

lemma findall_decimal: "isdecimal n \<Longrightarrow> findall n = [n]"
  by (cases n) (auto simp: isdecimal_def upper_not_decimal take_drop_all)

text \<open>
  Claim C6.  On a lexer built from any formula, at any cursor position, \<open>peek\<close> raises
  nothing: within range it returns the token of the substring at that index, which is of
  one of the four lexical kinds; out of range it returns the end-of-input token made from
  the empty string.  \<open>peek\<close> assigns nothing, so the position is as it was.
\<close>

theorem peek_never_raises:
  assumes "l = (Lexer_init formula)\<lparr>position := n\<rparr>"
  shows "(n < length (tokens l) \<longrightarrow>
           peek l = tokenize (tokens l ! n) \<and>
           (\<exists>k. k \<noteq> EOF \<and> peek l = Inr \<lparr>value = tokens l ! n, token_type = k\<rparr>)) \<and>
         (length (tokens l) \<le> n \<longrightarrow>
           peek l = tokenize [] \<and> peek l = Inr \<lparr>value = [], token_type = EOF\<rparr>)"
proof (intro conjI impI)
  assume n: "n < length (tokens l)"
  with assms show p: "peek l = tokenize (tokens l ! n)"
    by (simp add: peek_def)
  from n assms have "tokens l ! n \<in> set (findall formula)"
    by (simp add: Lexer_init_def)
  from tokenize_findall [OF this] p
  show "\<exists>k. k \<noteq> EOF \<and> peek l = Inr \<lparr>value = tokens l ! n, token_type = k\<rparr>"
    by simp
next
  assume "length (tokens l) \<le> n"
  with assms show "peek l = tokenize []" "peek l = Inr \<lparr>value = [], token_type = EOF\<rparr>"
    by (simp_all add: peek_def tokenize_def)
qed


theorem peek_never_raises_witness:
  "peek ((Lexer_init ''H2 O'')\<lparr>position := 1\<rparr>) = Inr \<lparr>value = ''2'', token_type = FACTOR\<rparr> \<and>
   peek ((Lexer_init ''H2 O'')\<lparr>position := 7\<rparr>) = Inr \<lparr>value = [], token_type = EOF\<rparr>"
proof
  let ?l = "(Lexer_init ''H2 O'')\<lparr>position := 1\<rparr>"
  let ?m = "(Lexer_init ''H2 O'')\<lparr>position := 7\<rparr>"
  have 1: "1 < length (tokens ?l)" by code_simp
  have 2: "tokenize (tokens ?l ! 1) = Inr \<lparr>value = ''2'', token_type = FACTOR\<rparr>" by code_simp
  have "peek ?l = tokenize (tokens ?l ! 1)"
    by (rule peek_never_raises [OF refl, THEN conjunct1, rule_format, THEN conjunct1]) (rule 1)
  with 2 show "peek ?l = Inr \<lparr>value = ''2'', token_type = FACTOR\<rparr>" by simp
  have 3: "length (tokens ?m) \<le> 7" by code_simp
  show "peek ?m = Inr \<lparr>value = [], token_type = EOF\<rparr>"
    by (rule peek_never_raises [OF refl, THEN conjunct2, rule_format, THEN conjunct2]) (rule 3)
qed

lemma lower_classes: "is_lower c \<Longrightarrow> \<not> is_upper c \<and> \<not> is_decimal c \<and> \<not> is_bracket c"
  by (auto simp: is_bracket_def opening_brackets_def closing_brackets_def is_upper_def
      is_lower_def is_decimal_def)

lemma upper_not_lower: "is_upper c \<Longrightarrow> \<not> is_lower c"
  by (auto simp: is_upper_def is_lower_def)

lemma take_drop_decimal_stop:
  "\<not> is_decimal c \<Longrightarrow>
     takeWhile is_decimal (cs @ c # s2) = takeWhile is_decimal cs \<and>
     dropWhile is_decimal (cs @ c # s2) = dropWhile is_decimal cs @ c # s2"
  by (induction cs) auto

lemma last_dropWhile: "dropWhile P xs \<noteq> [] \<Longrightarrow> last (dropWhile P xs) = last xs"
  by (induction xs) (auto split: if_splits)

text \<open>
  A lower-case letter goes into a token only right behind a capital letter: behind anything
  else the tokens in front of it are those of the part in front alone.
\<close>

lemma findall_append_lower:
  assumes c: "is_lower c"
  shows "s1 = [] \<or> \<not> is_upper (last s1) \<Longrightarrow>
    findall (s1 @ c # s2) = findall s1 @ findall (c # s2)"
proof (induction s1 rule: findall.induct)
  case 1
  show ?case by simp
next
  case (2 a cs)
  from "2.prems" have l: "\<not> is_upper (last (a # cs))" by simp
  note nd = lower_classes [OF c, THEN conjunct2, THEN conjunct1]
  show ?case
  proof (cases "is_upper a")
    case True
    show ?thesis
    proof (cases cs)
      case Nil
      with True l show ?thesis by simp
    next
      case (Cons d ds)
      show ?thesis
      proof (cases "is_lower d")
        case d: True
        from l Cons have "ds = [] \<or> \<not> is_upper (last ds)" by (cases ds) simp_all
        from "2.IH"(1) [OF True Cons d this] True Cons d show ?thesis by simp
      next
        case d: False
        from l Cons have "cs = [] \<or> \<not> is_upper (last cs)" by simp
        from "2.IH"(2) [OF True Cons d this] True Cons d show ?thesis by simp
      qed
    qed
  next
    case up: False
    show ?thesis
    proof (cases "is_decimal a")
      case True
      have "dropWhile is_decimal cs = [] \<or> \<not> is_upper (last (dropWhile is_decimal cs))"
      proof (cases "dropWhile is_decimal cs = []")
        case False
        then have "cs \<noteq> []" by auto
        with l last_dropWhile [OF False] show ?thesis by simp
      qed simp
      from "2.IH"(3) [OF up True this] take_drop_decimal_stop [OF nd, of cs s2] up True
      show ?thesis by simp
    next
      case False
      from l have "cs = [] \<or> \<not> is_upper (last cs)" by (cases cs) simp_all
      with up False "2.IH"(4,5) show ?thesis
        by (cases "is_bracket a") simp_all
    qed
  qed
qed

text \<open>
  Claim C7.  The pattern covers a capital letter, a digit and a bracket wherever they stand,
  and a lower-case letter right behind a capital letter, which makes the atom with it.
  Every other character is dropped: a character that is none of the four kinds, and a
  lower-case letter at the start or behind anything but a capital letter.  The tokens of a
  string around a dropped character are the tokens of the part in front followed by the
  tokens of the part behind, and every token of every string is one \<open>tokenize\<close> accepts, so
  nothing raises.  \<open>H2 O\<close> has the tokens of \<open>H2O\<close>, and both parse to the same mapping.
\<close>

theorem uncovered_characters_dropped:
  "(\<not> is_upper c \<and> \<not> is_decimal c \<and> \<not> is_bracket c \<and>
    (is_lower c \<longrightarrow> s1 = [] \<or> \<not> is_upper (last s1)) \<longrightarrow>
      findall (s1 @ c # s2) = findall s1 @ findall s2) \<and>
   (is_upper u \<and> is_lower c \<longrightarrow> findall (s1 @ u # c # s2) = findall s1 @ [u, c] # findall s2) \<and>
   (n < length (findall s) \<longrightarrow>
      (\<exists>k. k \<noteq> EOF \<and> tokenize (findall s ! n) = Inr \<lparr>value = findall s ! n, token_type = k\<rparr>)) \<and>
   tokens (Lexer_init ''H2 O'') = [''H'', ''2'', ''O''] \<and>
   Lexer_init ''H2 O'' = Lexer_init ''H2O'' \<and>
   parse ''H2 O'' = Inr [(''H'', 2), (''O'', 1)] \<and>
   parse ''H2O'' = Inr [(''H'', 2), (''O'', 1)]"
proof (intro conjI impI)
  assume a: "\<not> is_upper c \<and> \<not> is_decimal c \<and> \<not> is_bracket c \<and>
    (is_lower c \<longrightarrow> s1 = [] \<or> \<not> is_upper (last s1))"
  then have skip: "findall (c # s2) = findall s2" by simp
  show "findall (s1 @ c # s2) = findall s1 @ findall s2"
  proof (cases "is_lower c")
    case True
    with a have "s1 = [] \<or> \<not> is_upper (last s1)" by simp
    from findall_append_lower [OF True this, of s2] skip show ?thesis by simp
  next
    case False
    with a have "boundary (c # s2)" by (simp add: boundary_def)
    from findall_append [OF this, of s1] skip show ?thesis by simp
  qed
next
  assume a: "is_upper u \<and> is_lower c"
  then have "boundary (u # c # s2)"
    by (simp add: boundary_def upper_not_lower upper_not_decimal)
  from findall_append [OF this, of s1] a
  show "findall (s1 @ u # c # s2) = findall s1 @ [u, c] # findall s2" by simp
next
  assume "n < length (findall s)"
  then have "findall s ! n \<in> set (findall s)" by simp
  then show "\<exists>k. k \<noteq> EOF \<and>
      tokenize (findall s ! n) = Inr \<lparr>value = findall s ! n, token_type = k\<rparr>"
    by (rule tokenize_findall)
next
  show "tokens (Lexer_init ''H2 O'') = [''H'', ''2'', ''O'']" by code_simp
  show "Lexer_init ''H2 O'' = Lexer_init ''H2O''" by code_simp
  show "parse ''H2 O'' = Inr [(''H'', 2), (''O'', 1)]" by code_simp
  show "parse ''H2O'' = Inr [(''H'', 2), (''O'', 1)]" by code_simp
qed

theorem uncovered_characters_dropped_witness:
  "findall (''H2'' @ CHR '' '' # ''O'') = findall ''H2'' @ findall ''O'' \<and>
   findall (''He'' @ CHR ''y'' # ''O'') = findall ''He'' @ findall ''O'' \<and>
   findall (''2'' @ CHR ''x'' # ''3'') = findall ''2'' @ findall ''3'' \<and>
   findall ('')'' @ CHR ''H'' # CHR ''e'' # ''2'') = findall '')'' @ ''He'' # findall ''2'' \<and>
   parse ''H2 O'' = parse ''H2O''"
proof (intro conjI)
  note T = uncovered_characters_dropped
  show "findall (''H2'' @ CHR '' '' # ''O'') = findall ''H2'' @ findall ''O''"
    by (rule T [THEN conjunct1, rule_format]) (intro conjI impI; code_simp)
  show "findall (''He'' @ CHR ''y'' # ''O'') = findall ''He'' @ findall ''O''"
    by (rule T [THEN conjunct1, rule_format]) (intro conjI impI; code_simp)
  show "findall (''2'' @ CHR ''x'' # ''3'') = findall ''2'' @ findall ''3''"
    by (rule T [THEN conjunct1, rule_format]) (intro conjI impI; code_simp)
  show "findall ('')'' @ CHR ''H'' # CHR ''e'' # ''2'') = findall '')'' @ ''He'' # findall ''2''"
    by (rule T [THEN conjunct2, THEN conjunct1, rule_format]) (intro conjI; code_simp)
  from T [of "CHR '' ''" "[]" "[]"] show "parse ''H2 O'' = parse ''H2O''" by simp
qed

section \<open>The parser, case by case\<close>

lemma get_next_token_peek:
  "peek l = Inr t \<Longrightarrow> get_next_token l = (Inr t, step l)"
  "peek l = Inl e \<Longrightarrow> get_next_token l = (Inl e, l)"
  by (simp_all add: get_next_token_def step_def)

lemma consume_opening_bracket_peek:
  "peek l = Inr t \<Longrightarrow> consume_opening_bracket l = (Inr (), step l)"
  by (simp add: consume_opening_bracket_def get_next_token_peek)

lemma consume_closing_bracket_peek:
  "peek l = Inl e \<Longrightarrow> consume_closing_bracket l = (Inl e, l)"
  "peek l = Inr t \<Longrightarrow> token_type t = CLOSING_BRACKET \<Longrightarrow>
     consume_closing_bracket l = (Inr (), step l)"
  "peek l = Inr t \<Longrightarrow> token_type t \<noteq> CLOSING_BRACKET \<Longrightarrow>
     consume_closing_bracket l = (Inl (ParsingException t (Suc (position l))), step l)"
  by (simp_all add: consume_closing_bracket_def get_next_token_peek step_def)

lemma parse_atom_peek:
  "peek l = Inr t \<Longrightarrow> parse_atom l = (Inr [(value t, 1)], step l)"
  by (simp add: parse_atom_def get_next_token_peek)

lemma parse_factor_peek:
  "peek l = Inr t \<Longrightarrow>
     parse_factor l =
       (case int_of_str (value t) of Inl e \<Rightarrow> (Inl e, step l) | Inr n \<Rightarrow> (Inr n, step l))"
  by (simp add: parse_factor_def get_next_token_peek)

lemma tokenize_value: "tokenize s = Inr t \<Longrightarrow> value t = s"
  by (auto simp: tokenize_def split: if_splits)

lemma tokenize_type:
  "tokenize s = Inr t \<Longrightarrow>
     (token_type t = EOF \<longleftrightarrow> s = []) \<and>
     (token_type t = ATOM \<longleftrightarrow> isalpha s) \<and>
     (token_type t = FACTOR \<longleftrightarrow> isdecimal s) \<and>
     (token_type t = OPENING_BRACKET \<longleftrightarrow> s \<in> set opening_brackets) \<and>
     (token_type t = CLOSING_BRACKET \<longleftrightarrow> s \<in> set closing_brackets)"
  using isdecimal_not_isalpha [of s] bracket_not_isalpha [of s] bracket_not_isdecimal [of s]
    closing_not_opening [of s] bracket_nonempty [of s]
  by (auto simp: tokenize_def isalpha_def isdecimal_def split: if_splits)

lemma peek_token:
  assumes "peek l = Inr t" "token_type t \<noteq> EOF"
  shows "position l < length (tokens l)" "value t = tokens l ! position l"
    "tokenize (tokens l ! position l) = Inr t"
proof -
  show 1: "position l < length (tokens l)" by (rule peek_in_range [OF assms])
  with assms(1) show "tokenize (tokens l ! position l) = Inr t" by (simp add: peek_def)
  then show "value t = tokens l ! position l" by (rule tokenize_value)
qed

lemma int_of_str_nonneg:
  assumes "int_of_str n = Inr f"
  shows "0 \<le> f"
proof -
  have "0 \<le> fold (\<lambda>c n. 10 * n + (int (codepoint c) - 48)) s a"
    if "list_all is_decimal s" "0 \<le> a" for s a
    using that by (induction s arbitrary: a) (auto simp: is_decimal_def)
  with assms show ?thesis
    by (auto simp: int_of_str_def isdecimal_def split: if_splits)
qed


lemma peek_factor_decimal:
  assumes "peek l = Inr t" "token_type t = FACTOR"
  shows "isdecimal (value t)"
proof -
  from assms have "tokenize (tokens l ! position l) = Inr t" "value t = tokens l ! position l"
    by (simp_all add: peek_token)
  with assms(2) show ?thesis by (simp add: tokenize_type)
qed

lemma group_factor_cases:
  "peek l = Inl e \<Longrightarrow> group_factor c l = (Inl e, l)"
  "peek l = Inr t \<Longrightarrow> token_type t \<noteq> FACTOR \<Longrightarrow> group_factor c l = (Inr c, l)"
  "peek l = Inr t \<Longrightarrow> token_type t = FACTOR \<Longrightarrow> int_of_str (value t) = Inr n \<Longrightarrow>
     group_factor c l = (Inr (if n \<noteq> 1 then multiply c n else c), step l)"
  "peek l = Inr t \<Longrightarrow> token_type t = FACTOR \<Longrightarrow> int_of_str (value t) = Inl e \<Longrightarrow>
     group_factor c l = (Inl e, step l)"
  by (simp_all add: group_factor_def parse_factor_peek)

lemma parse_molecule_cases:
  "peek l = Inl e \<Longrightarrow> parse_molecule l = (Inl e, l)"
  "peek l = Inr t \<Longrightarrow> \<not> starts_group t \<Longrightarrow>
     parse_molecule l = (Inl (ParsingException t (position l)), l)"
  "peek l = Inr t \<Longrightarrow> starts_group t \<Longrightarrow> parse_group l = (Inl e, l1) \<Longrightarrow>
     parse_molecule l = (Inl e, l1)"
  "peek l = Inr t \<Longrightarrow> starts_group t \<Longrightarrow> parse_group l = (Inr ic, l1) \<Longrightarrow>
     peek l1 = Inl e \<Longrightarrow> parse_molecule l = (Inl e, l1)"
  "peek l = Inr t \<Longrightarrow> starts_group t \<Longrightarrow> parse_group l = (Inr ic, l1) \<Longrightarrow>
     peek l1 = Inr t2 \<Longrightarrow> \<not> starts_group t2 \<Longrightarrow> parse_molecule l = (Inr (iadd [] ic), l1)"
  "peek l = Inr t \<Longrightarrow> starts_group t \<Longrightarrow> parse_group l = (Inr ic, l1) \<Longrightarrow>
     peek l1 = Inr t2 \<Longrightarrow> starts_group t2 \<Longrightarrow> parse_molecule l1 = (Inl e, l2) \<Longrightarrow>
     parse_molecule l = (Inl e, l2)"
  "peek l = Inr t \<Longrightarrow> starts_group t \<Longrightarrow> parse_group l = (Inr ic, l1) \<Longrightarrow>
     peek l1 = Inr t2 \<Longrightarrow> starts_group t2 \<Longrightarrow> parse_molecule l1 = (Inr ic2, l2) \<Longrightarrow>
     parse_molecule l = (Inr (iadd (iadd [] ic) ic2), l2)"
  by (subst parse_molecule.simps, simp add: starts_group_def Let_def)+

lemma parse_group_cases:
  "peek l = Inl e \<Longrightarrow> parse_group l = (Inl e, l)"
  "peek l = Inr t \<Longrightarrow> \<not> starts_group t \<Longrightarrow>
     parse_group l = (Inl (ParsingException t (position l)), l)"
  "peek l = Inr t \<Longrightarrow> token_type t = ATOM \<Longrightarrow>
     parse_group l = group_factor [(value t, 1)] (step l)"
  "peek l = Inr t \<Longrightarrow> token_type t = OPENING_BRACKET \<Longrightarrow>
     parse_molecule (step l) = (Inl e, l2) \<Longrightarrow> parse_group l = (Inl e, l2)"
  "peek l = Inr t \<Longrightarrow> token_type t = OPENING_BRACKET \<Longrightarrow>
     parse_molecule (step l) = (Inr c, l2) \<Longrightarrow> peek l2 = Inl e \<Longrightarrow>
     parse_group l = (Inl e, l2)"
  "peek l = Inr t \<Longrightarrow> token_type t = OPENING_BRACKET \<Longrightarrow>
     parse_molecule (step l) = (Inr c, l2) \<Longrightarrow> peek l2 = Inr tc \<Longrightarrow>
     token_type tc \<noteq> CLOSING_BRACKET \<Longrightarrow>
     parse_group l = (Inl (ParsingException tc (Suc (position l2))), step l2)"
  "peek l = Inr t \<Longrightarrow> token_type t = OPENING_BRACKET \<Longrightarrow>
     parse_molecule (step l) = (Inr c, l2) \<Longrightarrow> peek l2 = Inr tc \<Longrightarrow>
     token_type tc = CLOSING_BRACKET \<Longrightarrow> parse_group l = group_factor c (step l2)"
  by (subst parse_group.simps,
      simp add: starts_group_def group_factor_def consume_opening_bracket_peek
        consume_closing_bracket_peek parse_atom_peek)+

lemma group_factor_InrE:
  assumes "group_factor c l = (Inr c', l')"
  obtains (plain) t where "peek l = Inr t" "token_type t \<noteq> FACTOR" "c' = c" "l' = l"
  | (factor) t n where "peek l = Inr t" "token_type t = FACTOR" "int_of_str (value t) = Inr n"
      "0 \<le> n" "c' = (if n \<noteq> 1 then multiply c n else c)" "l' = step l"
proof (cases "peek l")
  case (Inl e)
  from group_factor_cases(1) [OF Inl, of c] assms show ?thesis by simp
next
  case (Inr t)
  show ?thesis
  proof (cases "token_type t = FACTOR")
    case False
    from group_factor_cases(2) [OF Inr False, of c] assms have "c' = c" "l' = l" by simp_all
    then show ?thesis by (rule plain [OF Inr False])
  next
    case True
    show ?thesis
    proof (cases "int_of_str (value t)")
      case (Inl e)
      from group_factor_cases(4) [OF Inr True Inl, of c] assms show ?thesis by simp
    next
      case n: (Inr n)
      from group_factor_cases(3) [OF Inr True n, of c] assms
      have "c' = (if n \<noteq> 1 then multiply c n else c)" "l' = step l"
        by simp_all
      then show ?thesis by (rule factor [OF Inr True n int_of_str_nonneg [OF n]])
    qed
  qed
qed

lemma parse_molecule_InrE:
  assumes "parse_molecule l = (Inr c, l')"
  obtains (one) t ic t2 where "peek l = Inr t" "starts_group t" "parse_group l = (Inr ic, l')"
      "peek l' = Inr t2" "\<not> starts_group t2" "c = iadd [] ic"
  | (more) t ic l1 t2 ic2 where "peek l = Inr t" "starts_group t"
      "parse_group l = (Inr ic, l1)" "peek l1 = Inr t2" "starts_group t2"
      "parse_molecule l1 = (Inr ic2, l')" "c = iadd (iadd [] ic) ic2"
proof (cases "peek l")
  case (Inl e)
  from parse_molecule_cases(1) [OF Inl] assms show ?thesis by simp
next
  case pk: (Inr t)
  show ?thesis
  proof (cases "starts_group t")
    case False
    from parse_molecule_cases(2) [OF pk False] assms show ?thesis by simp
  next
    case sg: True
    obtain r1 l1 where g: "parse_group l = (r1, l1)" by force
    show ?thesis
    proof (cases r1)
      case (Inl e)
      from parse_molecule_cases(3) [OF pk sg g [unfolded Inl]] assms show ?thesis by simp
    next
      case r1: (Inr ic)
      note g' = g [unfolded r1]
      show ?thesis
      proof (cases "peek l1")
        case (Inl e)
        from parse_molecule_cases(4) [OF pk sg g' Inl] assms show ?thesis by simp
      next
        case pk2: (Inr t2)
        show ?thesis
        proof (cases "starts_group t2")
          case False
          from parse_molecule_cases(5) [OF pk sg g' pk2 False] assms
          have c: "c = iadd [] ic" and l: "l' = l1" by simp_all
          show ?thesis by (rule one [OF pk sg g' [folded l] pk2 [folded l] False c])
        next
          case sg2: True
          obtain r2 l2 where m: "parse_molecule l1 = (r2, l2)" by force
          show ?thesis
          proof (cases r2)
            case (Inl e)
            from parse_molecule_cases(6) [OF pk sg g' pk2 sg2 m [unfolded Inl]] assms
            show ?thesis by simp
          next
            case (Inr ic2)
            from parse_molecule_cases(7) [OF pk sg g' pk2 sg2 m [unfolded Inr]] assms
            have c: "c = iadd (iadd [] ic) ic2" and l: "l' = l2" by simp_all
            show ?thesis by (rule more [OF pk sg g' pk2 sg2 m [unfolded Inr, folded l] c])
          qed
        qed
      qed
    qed
  qed
qed

lemma parse_group_InrE:
  assumes "parse_group l = (Inr c, l')"
  obtains (atom) t where "peek l = Inr t" "token_type t = ATOM"
      "group_factor [(value t, 1)] (step l) = (Inr c, l')"
  | (bracket) t cm l2 tc where "peek l = Inr t" "token_type t = OPENING_BRACKET"
      "parse_molecule (step l) = (Inr cm, l2)" "peek l2 = Inr tc"
      "token_type tc = CLOSING_BRACKET" "group_factor cm (step l2) = (Inr c, l')"
proof (cases "peek l")
  case (Inl e)
  from parse_group_cases(1) [OF Inl] assms show ?thesis by simp
next
  case pk: (Inr t)
  consider "token_type t = ATOM" | "token_type t = OPENING_BRACKET" | "\<not> starts_group t"
    by (cases "token_type t") (simp_all add: starts_group_def)
  then show ?thesis
  proof cases
    case 1
    from parse_group_cases(3) [OF pk 1] assms
    have "group_factor [(value t, 1)] (step l) = (Inr c, l')" by simp
    then show ?thesis by (rule atom [OF pk 1])
  next
    case 3
    from parse_group_cases(2) [OF pk 3] assms show ?thesis by simp
  next
    case ob: 2
    obtain r2 l2 where m: "parse_molecule (step l) = (r2, l2)" by force
    show ?thesis
    proof (cases r2)
      case (Inl e)
      from parse_group_cases(4) [OF pk ob m [unfolded Inl]] assms show ?thesis by simp
    next
      case r2: (Inr cm)
      note m' = m [unfolded r2]
      show ?thesis
      proof (cases "peek l2")
        case (Inl e)
        from parse_group_cases(5) [OF pk ob m' Inl] assms show ?thesis by simp
      next
        case pk2: (Inr tc)
        show ?thesis
        proof (cases "token_type tc = CLOSING_BRACKET")
          case False
          from parse_group_cases(6) [OF pk ob m' pk2 False] assms show ?thesis by simp
        next
          case True
          from parse_group_cases(7) [OF pk ob m' pk2 True] assms
          have "group_factor cm (step l2) = (Inr c, l')" by simp
          then show ?thesis by (rule bracket [OF pk ob m' pk2 True])
        qed
      qed
    qed
  qed
qed

text \<open>The induction that follows the descent, with the calls that return.\<close>

lemma parse_induct [case_names molecule group]:
  assumes "\<And>l. (\<And>t. peek l = Inr t \<Longrightarrow> starts_group t \<Longrightarrow> Q l) \<Longrightarrow>
             (\<And>t ic l1 t2. peek l = Inr t \<Longrightarrow> starts_group t \<Longrightarrow> parse_group l = (Inr ic, l1) \<Longrightarrow>
                peek l1 = Inr t2 \<Longrightarrow> starts_group t2 \<Longrightarrow> P l1) \<Longrightarrow> P l"
    and "\<And>l. (\<And>t. peek l = Inr t \<Longrightarrow> token_type t = OPENING_BRACKET \<Longrightarrow> P (step l)) \<Longrightarrow> Q l"
  shows "P a" and "Q b"
proof (induction a and b rule: parse_molecule_parse_group.induct)
  case (1 l)
  show ?case
  proof (rule assms(1))
    fix t assume "peek l = Inr t" "starts_group t"
    then show "Q l" by (intro "1.IH"(1)) (simp_all add: starts_group_def)
  next
    fix t ic l1 t2
    assume "peek l = Inr t" "starts_group t" "parse_group l = (Inr ic, l1)"
      "peek l1 = Inr t2" "starts_group t2"
    then show "P l1"
      by (intro "1.IH"(2) [of t "Inr ic" l1 ic "iadd [] ic" t2]) (simp_all add: starts_group_def)
  qed
next
  case (2 l)
  show ?case
  proof (rule assms(2))
    fix t assume "peek l = Inr t" "token_type t = OPENING_BRACKET"
    then show "P (step l)"
      by (intro "2.IH" [of t "Inr ()" "step l" "()"])
        (simp_all add: consume_opening_bracket_peek)
  qed
qed

lemma step_simps [simp]:
  "tokens (step l) = tokens l" "position (step l) = Suc (position l)"
  by (simp_all add: step_def)

lemma group_factor_advance:
  assumes "group_factor c l = (Inr c', l')"
  shows "tokens l' = tokens l" "position l \<le> position l'"
    "position l \<le> length (tokens l) \<Longrightarrow> position l' \<le> length (tokens l)"
proof -
  from assms show "tokens l' = tokens l" "position l \<le> position l'"
    by (cases rule: group_factor_InrE; simp)+
  assume "position l \<le> length (tokens l)"
  with assms show "position l' \<le> length (tokens l)"
  proof (cases rule: group_factor_InrE)
    case (factor t n)
    with peek_in_range [OF factor(1)] show ?thesis by simp
  qed simp
qed

lemma parse_advances:
  "\<forall>c l'. parse_molecule l = (Inr c, l') \<longrightarrow>
     advanced l l' \<and> position l' \<le> length (tokens l)"
  "\<forall>c l'. parse_group m = (Inr c, l') \<longrightarrow>
     advanced m l' \<and> position l' \<le> length (tokens m)"
proof (induction l and m rule: parse_induct)
  case (molecule l)
  show ?case
  proof (intro allI impI)
    fix c l' assume "parse_molecule l = (Inr c, l')"
    then show "advanced l l' \<and> position l' \<le> length (tokens l)"
    proof (cases rule: parse_molecule_InrE)
      case (one t ic t2)
      with molecule(1) [OF one(1,2)] show ?thesis by simp
    next
      case (more t ic l1 t2 ic2)
      from molecule(1) [OF more(1,2)] more(3)
      have 1: "advanced l l1" by simp
      from molecule(2) [OF more(1-5)] more(6)
      have 2: "advanced l1 l'" "position l' \<le> length (tokens l1)" by simp_all
      from 1 2 show ?thesis by (simp add: advanced_def)
    qed
  qed
next
  case (group l)
  show ?case
  proof (intro allI impI)
    fix c l' assume "parse_group l = (Inr c, l')"
    then show "advanced l l' \<and> position l' \<le> length (tokens l)"
    proof (cases rule: parse_group_InrE)
      case (atom t)
      from peek_in_range [OF atom(1)] atom(2) have "position l < length (tokens l)" by simp
      with group_factor_advance [OF atom(3)] show ?thesis by (simp add: advanced_def)
    next
      case (bracket t cm l2 tc)
      from group [OF bracket(1,2)] bracket(3)
      have 1: "advanced (step l) l2" by simp
      from peek_in_range [OF bracket(4)] bracket(5)
      have 2: "position l2 < length (tokens l2)" by simp
      from 1 2 group_factor_advance [OF bracket(6)] show ?thesis by (simp add: advanced_def)
    qed
  qed
qed

lemma parse_molecule_advances:
  assumes "parse_molecule l = (Inr c, l')"
  shows "tokens l' = tokens l" "position l < position l'" "position l' \<le> length (tokens l)"
  using parse_advances(1) [of l] assms by (simp_all add: advanced_def)






section \<open>Properties of counters\<close>

lemma getitem_absent: "k \<notin> fst ` set c \<Longrightarrow> getitem c k = 0"
  by (simp add: getitem_def map_of_eq_None_iff [THEN iffD2])

lemma setitem_absent: "k \<notin> fst ` set c \<Longrightarrow> setitem c k v = c @ [(k, v)]"
  by (induction c) auto

lemma keys_setitem:
  "map fst (setitem c k v) = (if k \<in> fst ` set c then map fst c else map fst c @ [k])"
  by (induction c) (force+)

lemma distinct_setitem: "distinct (map fst c) \<Longrightarrow> distinct (map fst (setitem c k v))"
  by (simp add: keys_setitem)

lemma keys_fold_add:
  "fst ` set (fold (\<lambda>(elem, count) s. setitem s elem (getitem s elem + count)) other self) =
     fst ` set self \<union> fst ` set other"
proof (induction other arbitrary: self)
  case Nil
  show ?case by simp
next
  case (Cons x other)
  obtain k v where x: "x = (k, v)" by force
  have "fst ` set (setitem self k (getitem self k + v)) = insert k (fst ` set self)"
    using keys_setitem [of self k "getitem self k + v", THEN arg_cong, of set] by auto
  with Cons [of "setitem self k (getitem self k + v)"] x show ?case by auto
qed

lemma distinct_fold_add:
  "distinct (map fst self) \<Longrightarrow>
     distinct (map fst (fold (\<lambda>(elem, count) s. setitem s elem (getitem s elem + count)) other self))"
proof (induction other arbitrary: self)
  case Nil
  then show ?case by simp
next
  case (Cons x other)
  obtain k v where x: "x = (k, v)" by force
  from Cons.prems have "distinct (map fst (setitem self k (getitem self k + v)))"
    by (rule distinct_setitem)
  from Cons.IH [OF this] x show ?case by simp
qed

lemma distinct_iadd: "distinct (map fst self) \<Longrightarrow> distinct (map fst (iadd self other))"
  unfolding iadd_def keep_positive_def by (intro distinct_map_filter distinct_fold_add)

lemma iadd_positive: "(k, v) \<in> set (iadd self other) \<Longrightarrow> 0 < v"
  by (auto simp: iadd_def keep_positive_def)

lemma keys_iadd: "fst ` set (iadd self other) \<subseteq> fst ` set self \<union> fst ` set other"
proof -
  have "fst ` set (iadd self other) \<subseteq>
      fst ` set (fold (\<lambda>(elem, count) s. setitem s elem (getitem s elem + count)) other self)"
    unfolding iadd_def keep_positive_def by (intro image_mono) auto
  then show ?thesis by (simp add: keys_fold_add)
qed

lemma fold_add_fresh:
  "distinct (map fst (acc @ c)) \<Longrightarrow>
     fold (\<lambda>(elem, count) s. setitem s elem (getitem s elem + count)) c acc = acc @ c"
proof (induction c arbitrary: acc)
  case Nil
  show ?case by simp
next
  case (Cons x c)
  obtain k v where x: "x = (k, v)" by force
  from Cons.prems x have k: "k \<notin> fst ` set acc" by auto
  from Cons.prems x have "distinct (map fst ((acc @ [(k, v)]) @ c))" by simp
  from Cons.IH [OF this] k x show ?case
    by (simp add: getitem_absent setitem_absent)
qed

lemma iadd_empty: "distinct (map fst c) \<Longrightarrow> iadd [] c = keep_positive c"
  using fold_add_fresh [of "[]" c] by (simp add: iadd_def)

lemma keep_positive_all: "\<forall>(k, v) \<in> set c. 0 < v \<Longrightarrow> keep_positive c = c"
  unfolding keep_positive_def by (rule filter_True) auto

lemma getitem_Cons: "getitem ((k', v') # c) k = (if k' = k then v' else getitem c k)"
  by (auto simp: getitem_def)

lemma map_other_key:
  "k \<notin> fst ` set c \<Longrightarrow> map (\<lambda>(k', v). (k', if k' = k then v * f else v)) c = c"
  by (induction c) auto

lemma setitem_present:
  "distinct (map fst c) \<Longrightarrow> k \<in> fst ` set c \<Longrightarrow>
     setitem c k (getitem c k * f) = map (\<lambda>(k', v). (k', if k' = k then v * f else v)) (c::Counter)"
proof (induction c)
  case Nil
  then show ?case by simp
next
  case (Cons x c)
  obtain k' v' where x: "x = (k', v')" by force
  show ?case
  proof (cases "k' = k")
    case True
    with Cons.prems x have "k \<notin> fst ` set c" by auto
    with True x show ?thesis by (simp add: getitem_Cons map_other_key)
  next
    case False
    with Cons x show ?thesis by (auto simp: getitem_Cons)
  qed
qed

lemma keys_map_values: "map fst (map (\<lambda>(k, v). (k, g k v)) c) = map fst c"
  by (induction c) auto

lemma key_in_keys: "(k, v) \<in> set c \<Longrightarrow> k \<in> fst ` set c"
  by (metis fst_conv image_eqI)

lemma fold_multiply:
  "distinct ks \<Longrightarrow> distinct (map fst c) \<Longrightarrow> set ks \<subseteq> fst ` set c \<Longrightarrow>
     fold (\<lambda>key c. setitem c key (getitem c key * f)) ks c =
       map (\<lambda>(k, v). (k, if k \<in> set ks then v * f else v)) c"
proof (induction ks arbitrary: c)
  case Nil
  show ?case by simp
next
  case (Cons k ks)
  let ?c1 = "map (\<lambda>(k', v). (k', if k' = k then v * f else v)) c"
  have keys: "map fst ?c1 = map fst c" by (rule keys_map_values)
  from Cons.prems have k: "k \<in> fst ` set c" "k \<notin> set ks" "distinct ks" by simp_all
  from Cons.prems(2) k(1) have 1: "setitem c k (getitem c k * f) = ?c1"
    by (rule setitem_present)
  from Cons.prems(2) have d1: "distinct (map fst ?c1)" by (simp only: keys)
  from keys have "set (map fst ?c1) = set (map fst c)" by simp
  then have "fst ` set ?c1 = fst ` set c" by (simp only: set_map)
  with Cons.prems(3) have s1: "set ks \<subseteq> fst ` set ?c1" by simp
  have 2: "fold (\<lambda>key c. setitem c key (getitem c key * f)) ks ?c1 =
      map (\<lambda>(k, v). (k, if k \<in> set ks then v * f else v)) ?c1"
    by (rule Cons.IH [OF k(3) d1 s1])
  have 3: "map (\<lambda>(k, v). (k, if k \<in> set ks then v * f else v)) ?c1 =
      map (\<lambda>(k', v). (k', if k' \<in> set (k # ks) then v * f else v)) c"
    using k(2) by (induction c) auto
  from 1 2 3 show ?case by simp
qed

lemma multiply_map:
  assumes "distinct (map fst c)"
  shows "multiply c f = map (\<lambda>(k, v). (k, v * f)) c"
proof -
  from assms have "multiply c f =
      map (\<lambda>(k, v). (k, if k \<in> set (map fst c) then v * f else v)) c"
    unfolding multiply_def by (intro fold_multiply) simp_all
  also have "\<dots> = map (\<lambda>(k, v). (k, v * f)) c"
  proof (rule map_cong [OF refl])
    fix x assume x: "x \<in> set c"
    obtain k v where kv: "x = (k, v)" by force
    with x have "k \<in> fst ` set c" by (simp add: key_in_keys)
    with kv show "(case x of (k, v) \<Rightarrow> (k, if k \<in> set (map fst c) then v * f else v)) =
        (case x of (k, v) \<Rightarrow> (k, v * f))"
      by simp
  qed
  finally show ?thesis .
qed

lemma keys_multiply: "distinct (map fst c) \<Longrightarrow> map fst (multiply c f) = map fst c"
  by (simp only: multiply_map keys_map_values)

section \<open>What the descent returns\<close>

lemma atoms_step [simp]: "atoms (step l) = atoms l"
  by (simp add: atoms_def)

lemma peek_atom:
  assumes "peek l = Inr t" "token_type t = ATOM"
  shows "value t \<in> atoms l"
proof -
  from assms have 1: "position l < length (tokens l)" "value t = tokens l ! position l"
    "tokenize (tokens l ! position l) = Inr t"
    by (simp_all add: peek_token)
  from tokenize_type [OF 1(3)] assms(2) have "isalpha (tokens l ! position l)" by simp
  with 1 show ?thesis by (simp add: atoms_def)
qed

lemma group_factor_keys:
  assumes "group_factor c l = (Inr c', l')" "distinct (map fst c)"
  shows "map fst c' = map fst c"
  using assms by (cases rule: group_factor_InrE) (simp_all add: keys_multiply)

lemma parse_counters:
  "\<forall>c l'. parse_molecule l = (Inr c, l') \<longrightarrow>
     distinct (map fst c) \<and> fst ` set c \<subseteq> atoms l \<and> (\<forall>(k, v) \<in> set c. 0 < v)"
  "\<forall>c l'. parse_group m = (Inr c, l') \<longrightarrow> distinct (map fst c) \<and> fst ` set c \<subseteq> atoms m"
proof (induction l and m rule: parse_induct)
  case (molecule l)
  show ?case
  proof (intro allI impI)
    fix c l' assume "parse_molecule l = (Inr c, l')"
    then show "distinct (map fst c) \<and> fst ` set c \<subseteq> atoms l \<and> (\<forall>(k, v) \<in> set c. 0 < v)"
    proof (cases rule: parse_molecule_InrE)
      case (one t ic t2)
      from molecule(1) [OF one(1,2)] one(3) have "fst ` set ic \<subseteq> atoms l" by simp
      with keys_iadd [of "[]" ic] have "fst ` set c \<subseteq> atoms l" by (simp add: one(6))
      moreover have "distinct (map fst c)" by (simp add: one(6) distinct_iadd)
      moreover have "\<forall>(k, v) \<in> set c. 0 < v" by (auto simp: one(6) dest: iadd_positive)
      ultimately show ?thesis by simp
    next
      case (more t ic l1 t2 ic2)
      from molecule(1) [OF more(1,2)] more(3) have 1: "fst ` set ic \<subseteq> atoms l" by simp
      from parse_advances(2) [of l] more(3) have "tokens l1 = tokens l"
        by (simp add: advanced_def)
      then have "atoms l1 = atoms l" by (simp add: atoms_def)
      with molecule(2) [OF more(1-5)] more(6) have 2: "fst ` set ic2 \<subseteq> atoms l" by simp
      from keys_iadd [of "[]" ic] 1 have "fst ` set (iadd [] ic) \<subseteq> atoms l" by simp
      with keys_iadd [of "iadd [] ic" ic2] 2 have "fst ` set c \<subseteq> atoms l"
        unfolding more(7) by blast
      moreover have "distinct (map fst c)" by (simp add: more(7) distinct_iadd)
      moreover have "\<forall>(k, v) \<in> set c. 0 < v" by (auto simp: more(7) dest: iadd_positive)
      ultimately show ?thesis by simp
    qed
  qed
next
  case (group l)
  show ?case
  proof (intro allI impI)
    fix c l' assume "parse_group l = (Inr c, l')"
    then show "distinct (map fst c) \<and> fst ` set c \<subseteq> atoms l"
    proof (cases rule: parse_group_InrE)
      case (atom t)
      from group_factor_keys [OF atom(3)] have "map fst c = [value t]" by simp
      moreover from this have "fst ` set c = {value t}"
        by (metis list.set(1) list.simps(15) set_map)
      ultimately show ?thesis using peek_atom [OF atom(1,2)] by simp
    next
      case (bracket t cm l2 tc)
      from group [OF bracket(1,2)] bracket(3)
      have 1: "distinct (map fst cm)" "fst ` set cm \<subseteq> atoms l" by simp_all
      from group_factor_keys [OF bracket(6) 1(1)] have k: "map fst c = map fst cm" .
      then have "set (map fst c) = set (map fst cm)" by simp
      then have "fst ` set c = fst ` set cm" by (simp only: set_map)
      with 1 k show ?thesis by simp
    qed
  qed
qed

lemma findall_alpha_atom:
  assumes "k \<in> set (findall s)" "isalpha k"
  shows "is_atom_symbol k"
  using findall_shapes [OF assms(1)] assms(2) isdecimal_not_isalpha [of k]
    bracket_not_isalpha [of k]
  by blast

lemma peek_eof:
  "peek l = Inr t \<Longrightarrow> token_type t = EOF \<Longrightarrow> t = \<lparr>value = [], token_type = EOF\<rparr>"
  by (auto simp: peek_def tokenize_def split: if_splits)

lemma parse_formula_new_InrE:
  assumes "parse_formula p = (Inr r, p')" "result p = None"
  obtains l1 where "parse_molecule (lexer p) = (Inr r, l1)"
    "peek l1 = Inr \<lparr>value = [], token_type = EOF\<rparr>"
    "p' = p\<lparr>lexer := l1, result := Some r\<rparr>"
proof -
  obtain x l1 where m: "parse_molecule (lexer p) = (x, l1)" by force
  from assms m obtain c where x: "x = Inr c"
    by (cases x) (simp_all add: parse_formula_def)
  from assms m x obtain t where pk: "peek l1 = Inr t"
    by (cases "peek l1") (simp_all add: parse_formula_def)
  from assms m x pk have e: "token_type t = EOF" "c = r" "p' = p\<lparr>lexer := l1, result := Some r\<rparr>"
    by (auto simp: parse_formula_def Let_def split: if_splits)
  from peek_eof [OF pk e(1)] pk have "peek l1 = Inr \<lparr>value = [], token_type = EOF\<rparr>" by simp
  with m x e that show ?thesis by simp
qed

lemma parse_formula_new_Inr:
  assumes "parse_molecule (lexer p) = (Inr r, l1)" "peek l1 = Inr t" "token_type t = EOF"
    "result p = None"
  shows "parse_formula p = (Inr r, p\<lparr>lexer := l1, result := Some r\<rparr>)"
  using assms by (simp add: parse_formula_def)

section \<open>A molecule inside brackets\<close>

lemma embed_simps [simp]:
  "tokens (embed pre suf l) = pre @ tokens l @ suf"
  "position (embed pre suf l) = length pre + position l"
  by (simp_all add: embed_def)

lemma embed_step: "embed pre suf (step l) = step (embed pre suf l)"
  by (simp add: embed_def step_def)

lemma peek_embed_in:
  "position l < length (tokens l) \<Longrightarrow> peek (embed pre suf l) = peek l"
  by (simp add: peek_def nth_append)

lemma peek_embed:
  assumes "peek l = Inr t" "token_type t \<noteq> EOF"
  shows "peek (embed pre suf l) = Inr t"
  using peek_embed_in [OF peek_in_range [OF assms]] assms(1) by simp

lemma peek_embed_end:
  assumes "closes suf" "position l = length (tokens l)"
  shows "\<exists>t. peek (embed pre suf l) = Inr t \<and> \<not> starts_group t \<and> token_type t \<noteq> FACTOR"
proof (cases suf)
  case Nil
  with assms(2) show ?thesis
    by (simp add: peek_def tokenize_def starts_group_def)
next
  case (Cons s suf')
  with assms(1) have "s \<in> set closing_brackets" by (simp add: closes_def)
  from tokenize_closing [OF this] Cons assms(2) show ?thesis
    by (simp add: peek_def nth_append starts_group_def)
qed

lemma peek_embed_stop:
  assumes "closes suf" "position l \<le> length (tokens l)" "peek l = Inr t"
  shows "\<exists>t'. peek (embed pre suf l) = Inr t' \<and> (starts_group t' \<longleftrightarrow> starts_group t) \<and>
           (token_type t' = FACTOR \<longleftrightarrow> token_type t = FACTOR) \<and>
           (token_type t = FACTOR \<longrightarrow> t' = t)"
proof (cases "position l < length (tokens l)")
  case True
  with assms(3) show ?thesis by (simp add: peek_embed_in)
next
  case False
  with assms(2) have e: "position l = length (tokens l)" by simp
  with assms(3) have "token_type t = EOF" by (auto simp: peek_def tokenize_def)
  with peek_embed_end [OF assms(1) e, of pre] show ?thesis
    by (auto simp: starts_group_def)
qed

lemma group_factor_embed:
  assumes "closes suf" "position l \<le> length (tokens l)" "group_factor c0 l = (Inr c, l')"
  shows "group_factor c0 (embed pre suf l) = (Inr c, embed pre suf l')"
  using assms(3)
proof (cases rule: group_factor_InrE)
  case (plain t)
  from peek_embed_stop [OF assms(1,2) plain(1), of pre] plain(2)
  obtain t' where "peek (embed pre suf l) = Inr t'" "token_type t' \<noteq> FACTOR" by blast
  from group_factor_cases(2) [OF this] plain show ?thesis by simp
next
  case (factor t n)
  from peek_embed [OF factor(1), of pre suf] factor(2)
  have "peek (embed pre suf l) = Inr t" by simp
  from group_factor_cases(3) [OF this factor(2,3)] factor show ?thesis
    by (simp add: embed_step)
qed

lemma parse_embed:
  assumes "closes suf"
  shows "\<forall>c l'. parse_molecule l = (Inr c, l') \<longrightarrow>
           parse_molecule (embed pre suf l) = (Inr c, embed pre suf l')"
    and "\<forall>c l'. parse_group m = (Inr c, l') \<longrightarrow>
           parse_group (embed pre suf m) = (Inr c, embed pre suf l')"
proof (induction l and m rule: parse_induct)
  case (molecule l)
  show ?case
  proof (intro allI impI)
    fix c l' assume "parse_molecule l = (Inr c, l')"
    then show "parse_molecule (embed pre suf l) = (Inr c, embed pre suf l')"
    proof (cases rule: parse_molecule_InrE)
      case (one t ic t2)
      from one(2) have "token_type t \<noteq> EOF" by (auto simp: starts_group_def)
      from peek_embed [OF one(1) this] have 1: "peek (embed pre suf l) = Inr t" .
      from molecule(1) [OF one(1,2)] one(3)
      have 2: "parse_group (embed pre suf l) = (Inr ic, embed pre suf l')" by simp
      from parse_advances(2) [of l] one(3)
      have "position l' \<le> length (tokens l')" by (simp add: advanced_def)
      from peek_embed_stop [OF assms this one(4), of pre] one(5)
      obtain t' where 3: "peek (embed pre suf l') = Inr t'" "\<not> starts_group t'" by blast
      from parse_molecule_cases(5) [OF 1 one(2) 2 3] one(6) show ?thesis by simp
    next
      case (more t ic l1 t2 ic2)
      from more(2) have "token_type t \<noteq> EOF" by (auto simp: starts_group_def)
      from peek_embed [OF more(1) this] have 1: "peek (embed pre suf l) = Inr t" .
      from molecule(1) [OF more(1,2)] more(3)
      have 2: "parse_group (embed pre suf l) = (Inr ic, embed pre suf l1)" by simp
      from more(5) have "token_type t2 \<noteq> EOF" by (auto simp: starts_group_def)
      from peek_embed [OF more(4) this] have 3: "peek (embed pre suf l1) = Inr t2" .
      from molecule(2) [OF more(1-5)] more(6)
      have 4: "parse_molecule (embed pre suf l1) = (Inr ic2, embed pre suf l')" by simp
      from parse_molecule_cases(7) [OF 1 more(2) 2 3 more(5) 4] more(7) show ?thesis by simp
    qed
  qed
next
  case (group l)
  show ?case
  proof (intro allI impI)
    fix c l' assume "parse_group l = (Inr c, l')"
    then show "parse_group (embed pre suf l) = (Inr c, embed pre suf l')"
    proof (cases rule: parse_group_InrE)
      case (atom t)
      from atom(2) have ne: "token_type t \<noteq> EOF" by simp
      from peek_embed [OF atom(1) ne] have 1: "peek (embed pre suf l) = Inr t" .
      from peek_in_range [OF atom(1) ne] have "position (step l) \<le> length (tokens (step l))"
        by simp
      from group_factor_embed [OF assms this atom(3)]
      have "group_factor [(value t, 1)] (step (embed pre suf l)) = (Inr c, embed pre suf l')"
        by (simp add: embed_step)
      with parse_group_cases(3) [OF 1 atom(2)] show ?thesis by simp
    next
      case (bracket t cm l2 tc)
      from bracket(2) have ne: "token_type t \<noteq> EOF" by simp
      from peek_embed [OF bracket(1) ne] have 1: "peek (embed pre suf l) = Inr t" .
      from group [OF bracket(1,2)] bracket(3)
      have 2: "parse_molecule (step (embed pre suf l)) = (Inr cm, embed pre suf l2)"
        by (simp add: embed_step)
      from bracket(5) have ne2: "token_type tc \<noteq> EOF" by simp
      from peek_embed [OF bracket(4) ne2] have 3: "peek (embed pre suf l2) = Inr tc" .
      from peek_in_range [OF bracket(4) ne2]
      have "position (step l2) \<le> length (tokens (step l2))" by simp
      from group_factor_embed [OF assms this bracket(6)]
      have "group_factor cm (step (embed pre suf l2)) = (Inr c, embed pre suf l')"
        by (simp add: embed_step)
      with parse_group_cases(7) [OF 1 bracket(2) 2 3 bracket(5)] show ?thesis by simp
    qed
  qed
qed


lemma bracket_string:
  "s \<in> set opening_brackets \<or> s \<in> set closing_brackets \<Longrightarrow> \<exists>c. s = [c] \<and> is_bracket c"
  by (auto simp: opening_brackets_def closing_brackets_def is_bracket_def)

lemma findall_bracket: "is_bracket c \<Longrightarrow> findall (c # s) = [c] # findall s"
  using bracket_classes [of c] by simp

lemma findall_wrapped:
  assumes "ob \<in> set opening_brackets" "cb \<in> set closing_brackets"
  shows "findall (ob @ M @ cb @ n) = ob # findall M @ cb # findall n"
proof -
  from bracket_string assms obtain o' c' where b: "ob = [o']" "is_bracket o'" "cb = [c']"
    "is_bracket c'"
    by blast
  from b(4) have "boundary (cb @ n)" using bracket_classes [of c'] by (simp add: boundary_def b(3))
  then have 1: "findall (M @ cb @ n) = findall M @ findall (cb @ n)" by (rule findall_append)
  from findall_bracket [OF b(4), of n] b(3) have 2: "findall (cb @ n) = cb # findall n"
    by (simp del: findall.simps)
  from findall_bracket [OF b(2), of "M @ cb @ n"] b(1)
  have 3: "findall (ob @ M @ cb @ n) = ob # findall (M @ cb @ n)"
    by (simp del: findall.simps)
  from 1 2 3 show ?thesis by (simp del: findall.simps)
qed

lemma parse_InrE:
  assumes "parse M = Inr C"
  obtains l1 where "parse_molecule (Lexer_init M) = (Inr C, l1)" "tokens l1 = findall M"
    "position l1 = length (findall M)"
proof -
  let ?p = "Parser_init (Lexer_init M)"
  have n: "result ?p = None" by (simp add: Parser_init_def)
  obtain x p' where pf: "parse_formula ?p = (x, p')" by force
  with assms have "parse_formula ?p = (Inr C, p')" by (simp add: parse_def)
  from this n obtain l1 where m: "parse_molecule (lexer ?p) = (Inr C, l1)"
    and pk: "peek l1 = Inr \<lparr>value = [], token_type = EOF\<rparr>"
    by (rule parse_formula_new_InrE)
  from m have m': "parse_molecule (Lexer_init M) = (Inr C, l1)" by (simp add: Parser_init_def)
  from parse_molecule_advances [OF m'] have t: "tokens l1 = findall M"
    and le: "position l1 \<le> length (findall M)"
    by (simp_all add: Lexer_init_def)
  have "\<not> position l1 < length (findall M)"
  proof
    assume lt: "position l1 < length (findall M)"
    with t have "tokens l1 ! position l1 \<in> set (findall M)" by simp
    from tokenize_findall [OF this] lt t pk show False by (auto simp: peek_def)
  qed
  with le have "position l1 = length (findall M)" by simp
  with m' t that show ?thesis by blast
qed

lemma parse_wrapped_group:
  assumes "parse M = Inr C" "ob \<in> set opening_brackets" "cb \<in> set closing_brackets"
    and "L = \<lparr>tokens = ob # findall M @ cb # rest, position = 0\<rparr>"
  shows "peek L = Inr \<lparr>value = ob, token_type = OPENING_BRACKET\<rparr>"
    and "parse_group L = group_factor C (L\<lparr>position := length (findall M) + 2\<rparr>)"
proof -
  from assms(1) obtain l1 where m: "parse_molecule (Lexer_init M) = (Inr C, l1)"
    and l1: "tokens l1 = findall M" "position l1 = length (findall M)"
    by (rule parse_InrE)
  from assms(3) have "closes (cb # rest)" by (simp add: closes_def)
  from parse_embed(1) [OF this, of "Lexer_init M" "[ob]"] m
  have "parse_molecule (embed [ob] (cb # rest) (Lexer_init M)) =
      (Inr C, embed [ob] (cb # rest) l1)"
    by simp
  moreover have "embed [ob] (cb # rest) (Lexer_init M) = step L"
    by (simp add: embed_def step_def Lexer_init_def assms(4))
  moreover have "embed [ob] (cb # rest) l1 = L\<lparr>position := Suc (length (findall M))\<rparr>"
    by (simp add: embed_def l1 assms(4))
  ultimately have 2: "parse_molecule (step L) = (Inr C, L\<lparr>position := Suc (length (findall M))\<rparr>)"
    by simp
  show 1: "peek L = Inr \<lparr>value = ob, token_type = OPENING_BRACKET\<rparr>"
    by (simp add: peek_def assms(4) tokenize_opening [OF assms(2)])
  have 3: "peek (L\<lparr>position := Suc (length (findall M))\<rparr>) =
      Inr \<lparr>value = cb, token_type = CLOSING_BRACKET\<rparr>"
    by (simp add: peek_def assms(4) tokenize_closing [OF assms(3)] nth_append)
  from parse_group_cases(7) [OF 1 _ 2 3]
  show "parse_group L = group_factor C (L\<lparr>position := length (findall M) + 2\<rparr>)"
    by (simp add: step_def)
qed

lemma parse_of_group:
  assumes "L = Lexer_init W" "peek L = Inr t" "starts_group t" "parse_group L = (Inr ic, L')"
    "tokens L' = tokens L" "position L' = length (tokens L)"
  shows "parse W = Inr (iadd [] ic)"
proof -
  from assms(5,6) have pk: "peek L' = Inr \<lparr>value = [], token_type = EOF\<rparr>"
    by (simp add: peek_def tokenize_def)
  then have "\<not> starts_group \<lparr>value = [], token_type = EOF\<rparr>" by (simp add: starts_group_def)
  from parse_molecule_cases(5) [OF assms(2,3,4) pk this]
  have "parse_molecule (lexer (Parser_init L)) = (Inr (iadd [] ic), L')"
    by (simp add: Parser_init_def)
  from parse_formula_new_Inr [OF this pk] assms(1) show ?thesis
    by (simp add: parse_def Parser_init_def)
qed


lemma parse_counter:
  assumes "parse M = Inr C"
  shows "distinct (map fst C)" "\<forall>(k, v) \<in> set C. 0 < v"
proof -
  from assms obtain l1 where "parse_molecule (Lexer_init M) = (Inr C, l1)" by (rule parse_InrE)
  with parse_counters(1) [of "Lexer_init M"]
  show "distinct (map fst C)" "\<forall>(k, v) \<in> set C. 0 < v" by simp_all
qed

lemma keep_positive_scaled:
  assumes "\<forall>(k, v) \<in> set C. 0 < v"
  shows "0 < f \<Longrightarrow> keep_positive (map (\<lambda>(k, v). (k, v * f)) C) = map (\<lambda>(k, v). (k, v * f)) C"
    and "keep_positive (map (\<lambda>(k, v). (k, v * 0)) C) = []"
proof -
  assume "0 < f"
  with assms show "keep_positive (map (\<lambda>(k, v). (k, v * f)) C) = map (\<lambda>(k, v). (k, v * f)) C"
    by (intro keep_positive_all) auto
next
  show "keep_positive (map (\<lambda>(k, v). (k, v * 0)) C) = []"
    by (induction C) (auto simp: keep_positive_def)
qed

lemma parse_of_group_error:
  assumes "L = Lexer_init W" "peek L = Inr t" "starts_group t" "parse_group L = (Inl e, L')"
  shows "parse W = Inl e"
proof -
  from parse_molecule_cases(3) [OF assms(2,3,4)]
  have "parse_molecule (lexer (Parser_init L)) = (Inl e, L')" by (simp add: Parser_init_def)
  with assms(1) show ?thesis by (simp add: parse_def parse_formula_def Parser_init_def)
qed

text \<open>A molecule behind an opening bracket, and the input ends.\<close>

lemma parse_unclosed:
  assumes "parse M = Inr C" "ob \<in> set opening_brackets"
  shows "parse (ob @ M) =
    Inl (ParsingException \<lparr>value = [], token_type = EOF\<rparr> (length (findall M) + 2))"
proof -
  define L where "L = Lexer_init (ob @ M)"
  from bracket_string assms(2) obtain o' where b: "ob = [o']" "is_bracket o'" by blast
  from findall_bracket [OF b(2), of M] b(1)
  have L: "L = \<lparr>tokens = ob # findall M, position = 0\<rparr>"
    by (simp add: L_def Lexer_init_def del: findall.simps)
  from assms(1) obtain l1 where m: "parse_molecule (Lexer_init M) = (Inr C, l1)"
    and l1: "tokens l1 = findall M" "position l1 = length (findall M)"
    by (rule parse_InrE)
  let ?L2 = "L\<lparr>position := Suc (length (findall M))\<rparr>"
  have "closes []" by (simp add: closes_def)
  from parse_embed(1) [OF this, of "Lexer_init M" "[ob]"] m
  have "parse_molecule (embed [ob] [] (Lexer_init M)) = (Inr C, embed [ob] [] l1)" by simp
  moreover have "embed [ob] [] (Lexer_init M) = step L"
    by (simp add: embed_def step_def Lexer_init_def L)
  moreover have "embed [ob] [] l1 = ?L2" by (simp add: embed_def l1 L)
  ultimately have 2: "parse_molecule (step L) = (Inr C, ?L2)" by simp
  have 1: "peek L = Inr \<lparr>value = ob, token_type = OPENING_BRACKET\<rparr>"
    by (simp add: peek_def L tokenize_opening [OF assms(2)])
  have 3: "peek ?L2 = Inr \<lparr>value = [], token_type = EOF\<rparr>"
    by (simp add: peek_def L tokenize_def)
  from parse_group_cases(6) [OF 1 _ 2 3]
  have "parse_group L =
      (Inl (ParsingException \<lparr>value = [], token_type = EOF\<rparr> (length (findall M) + 2)), step ?L2)"
    by simp
  from parse_of_group_error [OF L_def 1 _ this] show ?thesis by (simp add: starts_group_def)
qed

section \<open>The entry point\<close>

text \<open>
  Claim C2.  A lexer on \<open>Mg2[CH4{NNi2(Li2O4)5}14]3\<close> and \<open>parse_formula\<close> on a parser over
  it: the call returns the mapping \<open>{Mg: 2, C: 3, H: 12, N: 42, Ni: 84, Li: 420, O: 840}\<close>,
  here with its items in the order the dictionary holds them.
\<close>

theorem parse_complex_formula:
  "fst (parse_formula (Parser_init (Lexer_init ''Mg2[CH4{NNi2(Li2O4)5}14]3''))) =
     Inr [(''Mg'', 2), (''C'', 3), (''H'', 12), (''N'', 42), (''Ni'', 84), (''Li'', 420),
          (''O'', 840)]"
  by code_simp

text \<open>
  Claim C9.  On a new parser over the lexer of any formula, when the molecule has been
  parsed, \<open>parse_formula\<close> peeks once more.  If a token is left at the cursor, the token
  peeked is the one \<open>tokenize\<close> makes of the substring there, with its kind, which is not
  \<open>EOF\<close>; \<open>parse_formula\<close> raises \<open>ParsingException\<close> with that token and the position of
  the cursor, and the lexer stays at that token.  If none is left, the token peeked is the
  end-of-input token and \<open>parse_formula\<close> returns the mapping of the molecule.
\<close>

theorem parse_formula_requires_eof:
  assumes "p = Parser_init (Lexer_init formula)"
    and "parse_molecule (lexer p) = (Inr c, l1)"
  shows "\<exists>t. peek l1 = Inr t \<and>
           (position l1 < length (tokens l1) \<longrightarrow>
              tokenize (tokens l1 ! position l1) = Inr t \<and>
              value t = tokens l1 ! position l1 \<and> token_type t \<noteq> EOF \<and>
              parse_formula p =
                (Inl (ParsingException t (position l1)), p\<lparr>lexer := l1, result := Some c\<rparr>)) \<and>
           (length (tokens l1) \<le> position l1 \<longrightarrow>
              t = \<lparr>value = [], token_type = EOF\<rparr> \<and>
              parse_formula p = (Inr c, p\<lparr>lexer := l1, result := Some c\<rparr>))"
proof (cases "position l1 < length (tokens l1)")
  case True
  from assms(1) have r: "result p = None" and t: "tokens (lexer p) = findall formula"
    by (simp_all add: Parser_init_def Lexer_init_def)
  from parse_molecule_advances(1) [OF assms(2)] t have "tokens l1 = findall formula"
    by simp
  with True have "tokens l1 ! position l1 \<in> set (findall formula)" by simp
  from tokenize_findall [OF this] obtain k where k: "k \<noteq> EOF"
    "tokenize (tokens l1 ! position l1) = Inr \<lparr>value = tokens l1 ! position l1, token_type = k\<rparr>"
    by blast
  let ?t = "\<lparr>value = tokens l1 ! position l1, token_type = k\<rparr>"
  from True k(2) have pk: "peek l1 = Inr ?t" by (simp add: peek_def)
  with r assms(2) k(1)
  have "parse_formula p =
      (Inl (ParsingException ?t (position l1)), p\<lparr>lexer := l1, result := Some c\<rparr>)"
    by (simp add: parse_formula_def)
  with True pk k show ?thesis by (intro exI [of _ ?t]) simp
next
  case False
  from assms(1) have r: "result p = None" by (simp add: Parser_init_def)
  let ?t = "\<lparr>value = [], token_type = EOF\<rparr>"
  from False have pk: "peek l1 = Inr ?t" by (simp add: peek_def tokenize_def)
  with r assms(2) have "parse_formula p = (Inr c, p\<lparr>lexer := l1, result := Some c\<rparr>)"
    by (simp add: parse_formula_def)
  with False pk show ?thesis by (intro exI [of _ ?t]) simp
qed

theorem parse_formula_requires_eof_witness:
  "parse_formula (Parser_init (Lexer_init ''H2(OH))2'')) =
     (Inl (ParsingException \<lparr>value = '')'', token_type = CLOSING_BRACKET\<rparr> 6),
      \<lparr>lexer = \<lparr>tokens = [''H'', ''2'', ''('', ''O'', ''H'', '')'', '')'', ''2''], position = 6\<rparr>,
       result = Some [(''H'', 3), (''O'', 1)]\<rparr>) \<and>
   parse_formula (Parser_init (Lexer_init ''H2(OH)2'')) =
     (Inr [(''H'', 4), (''O'', 2)],
      \<lparr>lexer = \<lparr>tokens = [''H'', ''2'', ''('', ''O'', ''H'', '')'', ''2''], position = 7\<rparr>,
       result = Some [(''H'', 4), (''O'', 2)]\<rparr>)"
proof
  let ?l1 = "\<lparr>tokens = [''H'', ''2'', ''('', ''O'', ''H'', '')'', '')'', ''2''], position = 6\<rparr>"
  let ?p = "Parser_init (Lexer_init ''H2(OH))2'')"
  have m: "parse_molecule (lexer ?p) = (Inr [(''H'', 3), (''O'', 1)], ?l1)"
    by code_simp
  have pk: "peek ?l1 = Inr \<lparr>value = '')'', token_type = CLOSING_BRACKET\<rparr>" by code_simp
  have n: "position ?l1 < length (tokens ?l1)" by simp
  from parse_formula_requires_eof [OF refl m] obtain t where t: "peek ?l1 = Inr t"
    "position ?l1 < length (tokens ?l1) \<longrightarrow>
       parse_formula ?p =
         (Inl (ParsingException t (position ?l1)),
          ?p\<lparr>lexer := ?l1, result := Some [(''H'', 3), (''O'', 1)]\<rparr>)"
    by blast
  from t(1) pk have "t = \<lparr>value = '')'', token_type = CLOSING_BRACKET\<rparr>" by simp
  with t(2) n show "parse_formula ?p =
     (Inl (ParsingException \<lparr>value = '')'', token_type = CLOSING_BRACKET\<rparr> 6),
      \<lparr>lexer = ?l1, result = Some [(''H'', 3), (''O'', 1)]\<rparr>)"
    by (simp add: Parser_init_def)
next
  let ?l1 = "\<lparr>tokens = [''H'', ''2'', ''('', ''O'', ''H'', '')'', ''2''], position = 7\<rparr>"
  let ?p = "Parser_init (Lexer_init ''H2(OH)2'')"
  have m: "parse_molecule (lexer ?p) = (Inr [(''H'', 4), (''O'', 2)], ?l1)"
    by code_simp
  from parse_formula_requires_eof [OF refl m] obtain t where
    "length (tokens ?l1) \<le> position ?l1 \<longrightarrow>
       parse_formula ?p = (Inr [(''H'', 4), (''O'', 2)],
         ?p\<lparr>lexer := ?l1, result := Some [(''H'', 4), (''O'', 2)]\<rparr>)"
    by blast
  then show "parse_formula ?p =
     (Inr [(''H'', 4), (''O'', 2)], \<lparr>lexer = ?l1, result = Some [(''H'', 4), (''O'', 2)]\<rparr>)"
    by (simp add: Parser_init_def)
qed

text \<open>
  A mapping that \<open>parse_formula\<close> has returned is stored: the next call on the parser the
  first call left returns it again and leaves that parser, with the cursor of its lexer,
  as it is.
\<close>

lemma parse_formula_cached:
  assumes "parse_formula p = (Inr r, p')"
  shows "parse_formula p' = (Inr r, p')"
proof (cases "result p")
  case (Some r0)
  with assms show ?thesis by (simp add: parse_formula_def)
next
  case None
  obtain x l1 where m: "parse_molecule (lexer p) = (x, l1)" by force
  from assms None m have "result p' = Some r"
    by (auto simp: parse_formula_def Let_def split: sum.splits if_splits)
  then show ?thesis by (simp add: parse_formula_def)
qed

text \<open>
  Claim C1.  A second call of \<open>parse_formula\<close> is to give what the first call gave, the
  mapping or the exception.  The code stores the mapping before it checks for the end of
  input, and stores nothing for an exception.  On \<open>H2(OH))2\<close> the first call raises
  \<open>ParsingException\<close> at the second closing bracket, with the mapping of \<open>H2(OH)\<close> already
  stored, and the second call returns that mapping for a formula that is not well-formed.
  On \<open>(H2 3O\<close> the first call raises at the token \<open>3\<close>, after consuming it, with nothing
  stored, and the second call parses on from the cursor and returns \<open>{O: 1}\<close>.
\<close>

theorem parse_formula_error_not_cached:
  "fst (parse_formula (Parser_init (Lexer_init ''H2(OH))2''))) =
     Inl (ParsingException \<lparr>value = '')'', token_type = CLOSING_BRACKET\<rparr> 6) \<and>
   result (snd (parse_formula (Parser_init (Lexer_init ''H2(OH))2'')))) =
     Some [(''H'', 3), (''O'', 1)] \<and>
   fst (parse_formula (snd (parse_formula (Parser_init (Lexer_init ''H2(OH))2''))))) =
     Inr [(''H'', 3), (''O'', 1)] \<and>
   fst (parse_formula (Parser_init (Lexer_init ''(H2 3O''))) =
     Inl (ParsingException \<lparr>value = ''3'', token_type = FACTOR\<rparr> 4) \<and>
   result (snd (parse_formula (Parser_init (Lexer_init ''(H2 3O'')))) = None \<and>
   position (lexer (snd (parse_formula (Parser_init (Lexer_init ''(H2 3O''))))) = 4 \<and>
   fst (parse_formula (snd (parse_formula (Parser_init (Lexer_init ''(H2 3O''))))) =
     Inr [(''O'', 1)]"
  by (intro conjI; code_simp)



text \<open>
  Claim C4.  When \<open>parse_formula\<close> on a new parser over the lexer of a formula returns a
  mapping, no key occurs twice in it, every key is an atom symbol (a capital letter, or a
  capital letter and a lower-case letter) and every count is greater than zero.
\<close>

theorem parse_formula_counts:
  assumes "parse_formula (Parser_init (Lexer_init formula)) = (Inr r, p')"
  shows "distinct (map fst r) \<and> (\<forall>(k, v) \<in> set r. 0 < v \<and> is_atom_symbol k)"
proof -
  let ?p = "Parser_init (Lexer_init formula)"
  have n: "result ?p = None" by (simp add: Parser_init_def)
  from assms n obtain l1 where m: "parse_molecule (lexer ?p) = (Inr r, l1)"
    by (rule parse_formula_new_InrE)
  from parse_counters(1) [of "lexer ?p"] m
  have c: "distinct (map fst r)" "fst ` set r \<subseteq> atoms (lexer ?p)" "\<forall>(k, v) \<in> set r. 0 < v"
    by simp_all
  have "is_atom_symbol k" if "(k, v) \<in> set r" for k v
  proof -
    from that c(2) have "k \<in> atoms (lexer ?p)" by (auto dest: key_in_keys)
    then have "k \<in> set (findall formula)" "isalpha k"
      by (simp_all add: atoms_def Parser_init_def Lexer_init_def)
    then show ?thesis by (rule findall_alpha_atom)
  qed
  with c(1,3) show ?thesis by auto
qed

theorem parse_formula_counts_witness:
  "distinct (map fst [(''H'', 4 :: int), (''O'', 2)]) \<and>
   list_all (\<lambda>(k, v). 0 < v \<and> is_atom_symbol k) [(''H'', 4 :: int), (''O'', 2)] \<and>
   fst (parse_formula (Parser_init (Lexer_init ''H2(OH)2''))) = Inr [(''H'', 4), (''O'', 2)]"
proof -
  let ?p = "Parser_init (Lexer_init ''H2(OH)2'')"
  have e: "parse_formula ?p = (Inr [(''H'', 4), (''O'', 2)], snd (parse_formula ?p))"
    by code_simp
  from e have f: "fst (parse_formula ?p) = Inr [(''H'', 4), (''O'', 2)]"
    by (metis fst_conv)
  from parse_formula_counts [OF e] f show ?thesis
    by (simp add: list_all_iff)
qed

text \<open>
  Claim C8.  Behind the molecule in brackets \<open>_consume_closing_bracket\<close> takes the next
  token and tests its type only.  A token of type \<open>CLOSING_BRACKET\<close> is accepted whatever
  its character, and no opening bracket is compared with it; a token of any other type is
  refused with \<open>ParsingException\<close>.  So a well-formed molecule between any opening and any
  closing bracket parses to the mapping of the molecule, and behind an opening bracket
  with no closing bracket it does not parse.  \<open>(OH]\<close> parses to the mapping of \<open>(OH)\<close>.
\<close>

theorem closing_bracket_kind_only:
  "(peek l = Inr t \<and> token_type t = CLOSING_BRACKET \<longrightarrow>
      consume_closing_bracket l = (Inr (), l\<lparr>position := Suc (position l)\<rparr>)) \<and>
   (peek l = Inr t \<and> token_type t \<noteq> CLOSING_BRACKET \<longrightarrow>
      consume_closing_bracket l =
        (Inl (ParsingException t (Suc (position l))), l\<lparr>position := Suc (position l)\<rparr>)) \<and>
   (parse M = Inr C \<and> ob \<in> set opening_brackets \<and> cb \<in> set closing_brackets \<longrightarrow>
      parse (ob @ M @ cb) = Inr C) \<and>
   (parse M = Inr C \<and> ob \<in> set opening_brackets \<longrightarrow>
      parse (ob @ M) =
        Inl (ParsingException \<lparr>value = [], token_type = EOF\<rparr> (length (findall M) + 2))) \<and>
   parse ''(OH]'' = Inr [(''O'', 1), (''H'', 1)] \<and>
   parse ''(OH)'' = Inr [(''O'', 1), (''H'', 1)] \<and>
   parse ''(OH2'' = Inl (ParsingException \<lparr>value = [], token_type = EOF\<rparr> 5)"
proof (intro conjI impI)
  assume "peek l = Inr t \<and> token_type t = CLOSING_BRACKET"
  then show "consume_closing_bracket l = (Inr (), l\<lparr>position := Suc (position l)\<rparr>)"
    by (simp add: consume_closing_bracket_peek(2) step_def)
next
  assume "peek l = Inr t \<and> token_type t \<noteq> CLOSING_BRACKET"
  then show "consume_closing_bracket l =
      (Inl (ParsingException t (Suc (position l))), l\<lparr>position := Suc (position l)\<rparr>)"
    by (simp add: consume_closing_bracket_peek(3) step_def)
next
  assume a: "parse M = Inr C \<and> ob \<in> set opening_brackets \<and> cb \<in> set closing_brackets"
  define L where "L = Lexer_init (ob @ M @ cb)"
  from a findall_wrapped [of ob cb M "[]"]
  have L: "L = \<lparr>tokens = ob # findall M @ cb # [], position = 0\<rparr>"
    by (simp add: L_def Lexer_init_def)
  let ?L' = "L\<lparr>position := length (findall M) + 2\<rparr>"
  from a have pk: "peek L = Inr \<lparr>value = ob, token_type = OPENING_BRACKET\<rparr>"
    and g: "parse_group L = group_factor C ?L'"
    by (simp_all add: parse_wrapped_group [OF _ _ _ L])
  have "peek ?L' = Inr \<lparr>value = [], token_type = EOF\<rparr>"
    by (simp add: peek_def L tokenize_def)
  from group_factor_cases(2) [OF this, of C] g have "parse_group L = (Inr C, ?L')" by simp
  from parse_of_group [OF L_def pk _ this] have "parse (ob @ M @ cb) = Inr (iadd [] C)"
    by (simp add: starts_group_def L)
  with a parse_counter [of M C] show "parse (ob @ M @ cb) = Inr C"
    by (simp add: iadd_empty keep_positive_all)
next
  assume "parse M = Inr C \<and> ob \<in> set opening_brackets"
  then show "parse (ob @ M) =
      Inl (ParsingException \<lparr>value = [], token_type = EOF\<rparr> (length (findall M) + 2))"
    by (simp add: parse_unclosed)
next
  show "parse ''(OH]'' = Inr [(''O'', 1), (''H'', 1)]" by code_simp
  show "parse ''(OH)'' = Inr [(''O'', 1), (''H'', 1)]" by code_simp
  show "parse ''(OH2'' = Inl (ParsingException \<lparr>value = [], token_type = EOF\<rparr> 5)"
    by code_simp
qed

theorem closing_bracket_kind_only_witness:
  "consume_closing_bracket \<lparr>tokens = [''('', ''O'', ''H'', '']''], position = 3\<rparr> =
     (Inr (), \<lparr>tokens = [''('', ''O'', ''H'', '']''], position = 4\<rparr>) \<and>
   consume_closing_bracket \<lparr>tokens = [''('', ''O'', ''H'', ''2'', ''2''], position = 4\<rparr> =
     (Inl (ParsingException \<lparr>value = ''2'', token_type = FACTOR\<rparr> 5),
      \<lparr>tokens = [''('', ''O'', ''H'', ''2'', ''2''], position = 5\<rparr>) \<and>
   parse (''{'' @ ''H2O'' @ '')'') = Inr [(''H'', 2), (''O'', 1)] \<and>
   parse (''{'' @ ''H2O'') = Inl (ParsingException \<lparr>value = [], token_type = EOF\<rparr> 5)"
proof (intro conjI)
  note T = closing_bracket_kind_only
  let ?l = "\<lparr>tokens = [''('', ''O'', ''H'', '']''], position = 3\<rparr>"
  let ?t = "\<lparr>value = '']'', token_type = CLOSING_BRACKET\<rparr>"
  have a: "peek ?l = Inr ?t \<and> token_type ?t = CLOSING_BRACKET" by (intro conjI; code_simp)
  from T [THEN conjunct1, rule_format, OF a]
  show "consume_closing_bracket ?l = (Inr (), \<lparr>tokens = [''('', ''O'', ''H'', '']''], position = 4\<rparr>)"
    by simp
  let ?m = "\<lparr>tokens = [''('', ''O'', ''H'', ''2'', ''2''], position = 4\<rparr>"
  let ?f = "\<lparr>value = ''2'', token_type = FACTOR\<rparr>"
  have c: "peek ?m = Inr ?f \<and> token_type ?f \<noteq> CLOSING_BRACKET" by (intro conjI; code_simp)
  from T [THEN conjunct2, THEN conjunct1, rule_format, OF c]
  show "consume_closing_bracket ?m =
      (Inl (ParsingException ?f 5), \<lparr>tokens = [''('', ''O'', ''H'', ''2'', ''2''], position = 5\<rparr>)"
    by simp
  have b: "parse ''H2O'' = Inr [(''H'', 2), (''O'', 1)] \<and> ''{'' \<in> set opening_brackets \<and>
      '')'' \<in> set closing_brackets"
    by (intro conjI; code_simp)
  from T [THEN conjunct2, THEN conjunct2, THEN conjunct1, rule_format, OF b]
  show "parse (''{'' @ ''H2O'' @ '')'') = Inr [(''H'', 2), (''O'', 1)]" .
  have d: "parse ''H2O'' = Inr [(''H'', 2), (''O'', 1)] \<and> ''{'' \<in> set opening_brackets"
    by (intro conjI; code_simp)
  have "length (findall ''H2O'') + 2 = 5" by code_simp
  with T [THEN conjunct2, THEN conjunct2, THEN conjunct2, THEN conjunct1, rule_format, OF d]
  show "parse (''{'' @ ''H2O'') = Inl (ParsingException \<lparr>value = [], token_type = EOF\<rparr> 5)"
    by simp
qed

text \<open>
  Claim C5, as the code has it.  For a molecule string \<open>M\<close> that parses to \<open>C\<close>, any opening
  and any closing bracket and a decimal string \<open>n\<close>: when \<open>int\<close> converts \<open>n\<close>, to \<open>f\<close>, the
  bracketed \<open>M\<close> followed by \<open>n\<close> parses to \<open>C\<close> with every count multiplied by \<open>f\<close>, without
  the items whose count is then not positive; for \<open>f\<close> at least 1 that is \<open>C\<close> with every
  count multiplied by \<open>f\<close>, for \<open>f = 0\<close> it is the empty mapping.  When \<open>n\<close> has more digits
  than \<open>int\<close> converts, the parse raises the \<open>ValueError\<close> of \<open>int\<close>.
\<close>

theorem bracket_factor_multiplies:
  assumes "parse M = Inr C" "ob \<in> set opening_brackets" "cb \<in> set closing_brackets"
    "isdecimal n"
  shows "(length n \<le> int_max_str_digits \<longrightarrow>
            (\<exists>f. int_of_str n = Inr f \<and> 0 \<le> f \<and>
               parse (ob @ M @ cb @ n) = Inr (keep_positive (map (\<lambda>(k, v). (k, v * f)) C)) \<and>
               (0 < f \<longrightarrow> parse (ob @ M @ cb @ n) = Inr (map (\<lambda>(k, v). (k, v * f)) C)) \<and>
               (f = 0 \<longrightarrow> parse (ob @ M @ cb @ n) = Inr []))) \<and>
         (int_max_str_digits < length n \<longrightarrow> parse (ob @ M @ cb @ n) = Inl (ValueError n))"
proof -
  define L where "L = Lexer_init (ob @ M @ cb @ n)"
  from assms findall_wrapped [of ob cb M n]
  have L: "L = \<lparr>tokens = ob # findall M @ cb # [n], position = 0\<rparr>"
    by (simp add: L_def Lexer_init_def findall_decimal del: findall.simps)
  let ?L' = "L\<lparr>position := length (findall M) + 2\<rparr>"
  from assms have pk: "peek L = Inr \<lparr>value = ob, token_type = OPENING_BRACKET\<rparr>"
    and g: "parse_group L = group_factor C ?L'"
    by (simp_all add: parse_wrapped_group [OF _ _ _ L])
  have sg: "starts_group \<lparr>value = ob, token_type = OPENING_BRACKET\<rparr>"
    by (simp add: starts_group_def)
  have pf: "peek ?L' = Inr \<lparr>value = n, token_type = FACTOR\<rparr>"
    by (simp add: peek_def L nth_append tokenize_isdecimal [OF assms(4)])
  note C = parse_counter [OF assms(1)]
  show ?thesis
  proof (intro conjI impI)
    assume "length n \<le> int_max_str_digits"
    with assms(4) obtain f where f: "int_of_str n = Inr f" by (simp add: int_of_str_def)
    let ?X = "map (\<lambda>(k, v). (k, v * f)) C"
    have "C = map (\<lambda>(k, v). (k, v * 1)) C" by (induction C) auto
    with C(1) have X: "(if f \<noteq> 1 then multiply C f else C) = ?X"
      by (cases "f = 1") (simp_all add: multiply_map)
    from group_factor_cases(3) [OF pf _ _, of f C] f g X
    have "parse_group L = (Inr ?X, step ?L')" by simp
    from parse_of_group [OF L_def pk sg this] have "parse (ob @ M @ cb @ n) = Inr (iadd [] ?X)"
      by (simp add: L)
    moreover from C(1) have "distinct (map fst ?X)" by (simp only: keys_map_values)
    ultimately have 1: "parse (ob @ M @ cb @ n) = Inr (keep_positive ?X)"
      by (simp add: iadd_empty)
    with keep_positive_scaled [OF C(2)] f int_of_str_nonneg [OF f]
    show "\<exists>f. int_of_str n = Inr f \<and> 0 \<le> f \<and>
        parse (ob @ M @ cb @ n) = Inr (keep_positive (map (\<lambda>(k, v). (k, v * f)) C)) \<and>
        (0 < f \<longrightarrow> parse (ob @ M @ cb @ n) = Inr (map (\<lambda>(k, v). (k, v * f)) C)) \<and>
        (f = 0 \<longrightarrow> parse (ob @ M @ cb @ n) = Inr [])"
      by (intro exI [of _ f]) auto
  next
    assume "int_max_str_digits < length n"
    then have "int_of_str n = Inl (ValueError n)" by (simp add: int_of_str_def)
    from group_factor_cases(4) [OF pf _ _, of "ValueError n" C] this g
    have "parse_group L = (Inl (ValueError n), step ?L')" by simp
    from parse_of_group_error [OF L_def pk sg this]
    show "parse (ob @ M @ cb @ n) = Inl (ValueError n)" .
  qed
qed

theorem bracket_factor_multiplies_witness:
  "parse (''['' @ ''OH'' @ ''}'' @ ''12'') = Inr [(''O'', 12), (''H'', 12)]"
proof -
  have 1: "parse ''OH'' = Inr [(''O'', 1), (''H'', 1)]" by code_simp
  have 2: "''['' \<in> set opening_brackets" by code_simp
  have 3: "''}'' \<in> set closing_brackets" by code_simp
  have 4: "isdecimal ''12''" by code_simp
  have 5: "int_of_str ''12'' = Inr 12" by code_simp
  have 6: "length ''12'' \<le> int_max_str_digits" by (simp add: int_max_str_digits_def)
  from bracket_factor_multiplies [OF 1 2 3 4, THEN conjunct1, rule_format, OF 6] 5
  show ?thesis by auto
qed

text \<open>
  Claim C5 as it is stated fails for the factor \<open>0\<close>: \<open>H\<close> parses to \<open>{H: 1}\<close>, and \<open>(H)0\<close>
  parses to the empty mapping, not to \<open>{H: 0}\<close>; \<open>+=\<close> on counters drops the item.
\<close>

theorem zero_factor_drops_atoms:
  "parse ''H'' = Inr [(''H'', 1)] \<and>
   parse ''(H)0'' = Inr [] \<and>
   parse ''(H)0'' \<noteq> Inr [(''H'', 1 * 0)]"
  by (intro conjI; code_simp)

end
